theory Spec2Isabelle
  imports Main "HOL-Library.Sublist" "HOL-Library.Multiset"
begin

section \<open>Characters and strings as the analyser sees them\<close>

text \<open>
  The analyser works on Python \<open>str\<close> values. The model uses \<open>string\<close>: a text is a list of
  code points below 256. On these code points the classes below are those of Python 3:
  \<open>str.isupper\<close>, \<open>str.islower\<close>, \<open>str.isdigit\<close> and \<open>str.isspace\<close> as the methods
  classify them (the letters of Latin-1 are cased, the no-break space and the next-line
  control are white space), and \<open>str.lower\<close>. A text with a code point from 256 on is
  outside the model.
\<close>

definition backslash :: char where
  "backslash = CHR 0x5C"

definition code :: "char \<Rightarrow> nat" where
  "code c = of_char c"

text \<open>\<open>str.isupper\<close> on one character: \<open>A..Z\<close> and the capitals \<open>0xC0..0xDE\<close> of Latin-1
  (\<open>0xD7\<close> is the multiplication sign).\<close>

definition isupper :: "char \<Rightarrow> bool" where
  "isupper c =
     ((65 \<le> code c \<and> code c \<le> 90) \<or> (192 \<le> code c \<and> code c \<le> 214) \<or>
      (216 \<le> code c \<and> code c \<le> 222))"

text \<open>\<open>str.islower\<close> on one character: \<open>a..z\<close>, the ordinal indicators \<open>0xAA\<close> and \<open>0xBA\<close>,
  the micro sign \<open>0xB5\<close>, and the small letters \<open>0xDF..0xFF\<close> of Latin-1 (\<open>0xF7\<close> is the
  division sign).\<close>

definition islower :: "char \<Rightarrow> bool" where
  "islower c =
     ((97 \<le> code c \<and> code c \<le> 122) \<or> code c = 170 \<or> code c = 181 \<or> code c = 186 \<or>
      (223 \<le> code c \<and> code c \<le> 246) \<or> 248 \<le> code c)"

text \<open>\<open>str.isdigit\<close> on one character: \<open>0..9\<close> and the superscripts \<open>0xB2\<close>, \<open>0xB3\<close>,
  \<open>0xB9\<close>.\<close>

definition isdigit :: "char \<Rightarrow> bool" where
  "isdigit c =
     ((48 \<le> code c \<and> code c \<le> 57) \<or> code c = 178 \<or> code c = 179 \<or> code c = 185)"

text \<open>\<open>str.isspace\<close>, which \<open>strip\<close>, \<open>split\<close> and the regex class \<open>\s\<close> share:
  tab, line feed, vertical tab, form feed, carriage return, the four separators
  \<open>0x1C..0x1F\<close>, the blank, the next-line control \<open>0x85\<close> and the no-break space
  \<open>0xA0\<close>.\<close>

definition isspace :: "char \<Rightarrow> bool" where
  "isspace c =
     ((9 \<le> code c \<and> code c \<le> 13) \<or> (28 \<le> code c \<and> code c \<le> 32) \<or>
      code c = 133 \<or> code c = 160)"

text \<open>The regex class \<open>\w\<close> of a \<open>str\<close> pattern: the alphanumeric characters (letters,
  digits and the fractions \<open>0xBC..0xBE\<close>) and the underscore.\<close>

definition isword :: "char \<Rightarrow> bool" where
  "isword c =
     (isupper c \<or> islower c \<or> isdigit c \<or> (188 \<le> code c \<and> code c \<le> 190) \<or> code c = 95)"

text \<open>The regex class \<open>[A-Z]\<close>: the range of the code points of \<open>A\<close> and \<open>Z\<close>, which
  holds no other capital.\<close>

definition capital_AZ :: "char \<Rightarrow> bool" where
  "capital_AZ c = (65 \<le> code c \<and> code c \<le> 90)"

text \<open>\<open>str.lower\<close> on one character: each capital has its small letter 32 code points
  above it. Two characters are equal under \<open>re.IGNORECASE\<close> when their lower cases are
  equal.\<close>

definition lower :: "char \<Rightarrow> char" where
  "lower c = (if isupper c then char_of (code c + 32) else c)"

text \<open>The classes read off the bits of the character; evaluation uses these equations.\<close>

lemma isupper_code [code]:
  "isupper (Char b0 b1 b2 b3 b4 b5 b6 b7) =
     (if b7 then (if b6 then (if b5 then False else (if b4 then (if b2 then (if b1 then \<not>
     b0 else True) else True) else True)) else False) else (if b6 then (if b5 then False else
     (if b4 then (if b3 then (if b2 then False else (if b1 then \<not> b0 else True)) else
     True) else (if b3 then True else (if b2 then True else (if b1 then True else b0))))) else
     False))"
  by (cases b0; cases b1; cases b2; cases b3; cases b4; cases b5; cases b6; cases b7;
      simp add: isupper_def code_def)

lemma islower_code [code]:
  "islower (Char b0 b1 b2 b3 b4 b5 b6 b7) =
     (if b7 then (if b6 then (if b5 then (if b4 then (if b3 then True else (if b2 then (if b1
     then \<not> b0 else True) else True)) else True) else (if b4 then (if b3 then (if b2 then
     (if b1 then b0 else False) else False) else False) else False)) else (if b5 then (if b4
     then (if b3 then (if b2 then False else (if b1 then \<not> b0 else False)) else (if b2
     then (if b1 then False else b0) else False)) else (if b3 then (if b2 then False else (if
     b1 then \<not> b0 else False)) else False)) else False)) else (if b6 then (if b5 then (if
     b4 then (if b3 then (if b2 then False else (if b1 then \<not> b0 else True)) else True)
     else (if b3 then True else (if b2 then True else (if b1 then True else b0)))) else False)
     else False))"
  by (cases b0; cases b1; cases b2; cases b3; cases b4; cases b5; cases b6; cases b7;
      simp add: islower_def code_def)

lemma isdigit_code [code]:
  "isdigit (Char b0 b1 b2 b3 b4 b5 b6 b7) =
     (if b7 then (if b6 then False else (if b5 then (if b4 then (if b3 then (if b2 then False
     else (if b1 then False else b0)) else (if b2 then False else b1)) else False) else False))
     else (if b6 then False else (if b5 then (if b4 then (if b3 then (if b2 then False else
     \<not> b1) else True) else False) else False)))"
  by (cases b0; cases b1; cases b2; cases b3; cases b4; cases b5; cases b6; cases b7;
      simp add: isdigit_def code_def)

lemma isspace_code [code]:
  "isspace (Char b0 b1 b2 b3 b4 b5 b6 b7) =
     (if b7 then (if b6 then False else (if b5 then (if b4 then False else (if b3 then False
     else (if b2 then False else (if b1 then False else \<not> b0)))) else (if b4 then False
     else (if b3 then False else (if b2 then (if b1 then False else b0) else False))))) else
     (if b6 then False else (if b5 then (if b4 then False else (if b3 then False else (if b2
     then False else (if b1 then False else \<not> b0)))) else (if b4 then (if b3 then b2 else
     False) else (if b3 then (if b2 then \<not> b1 else (if b1 then True else b0)) else
     False)))))"
  by (cases b0; cases b1; cases b2; cases b3; cases b4; cases b5; cases b6; cases b7;
      simp add: isspace_def code_def)

lemma isword_code [code]:
  "isword (Char b0 b1 b2 b3 b4 b5 b6 b7) =
     (if b7 then (if b6 then (if b4 then (if b3 then True else (if b2 then (if b1 then \<not>
     b0 else True) else True)) else True) else (if b5 then (if b4 then (if b3 then (if b2 then
     (if b1 then \<not> b0 else True) else (if b1 then \<not> b0 else b0)) else (if b2 then (if
     b1 then False else b0) else b1)) else (if b3 then (if b2 then False else (if b1 then
     \<not> b0 else False)) else False)) else False)) else (if b6 then (if b5 then (if b4 then
     (if b3 then (if b2 then False else (if b1 then \<not> b0 else True)) else True) else (if
     b3 then True else (if b2 then True else (if b1 then True else b0)))) else (if b4 then (if
     b3 then (if b2 then (if b1 then b0 else False) else (if b1 then \<not> b0 else True)) else
     True) else (if b3 then True else (if b2 then True else (if b1 then True else b0))))) else
     (if b5 then (if b4 then (if b3 then (if b2 then False else \<not> b1) else True) else
     False) else False)))"
  by (cases b0; cases b1; cases b2; cases b3; cases b4; cases b5; cases b6; cases b7;
      simp add: isword_def isupper_def islower_def isdigit_def code_def)

lemma capital_AZ_code [code]:
  "capital_AZ (Char b0 b1 b2 b3 b4 b5 b6 b7) =
     (if b7 then False else (if b6 then (if b5 then False else (if b4 then (if b3 then (if b2
     then False else (if b1 then \<not> b0 else True)) else True) else (if b3 then True else
     (if b2 then True else (if b1 then True else b0))))) else False))"
  by (cases b0; cases b1; cases b2; cases b3; cases b4; cases b5; cases b6; cases b7;
      simp add: capital_AZ_def code_def)

text \<open>Lowering a capital sets the bit \<open>0x20\<close>; evaluation uses this equation.\<close>

lemma set_bit5:
  "of_char (Char b0 b1 b2 b3 b4 False b6 b7) + 32 =
     (of_char (Char b0 b1 b2 b3 b4 True b6 b7) :: nat)"
  by (simp add: of_char_Char)

lemma isupper_bit5: "isupper (Char b0 b1 b2 b3 b4 b5 b6 b7) \<Longrightarrow> \<not> b5"
  by (simp add: isupper_code split: if_splits)

lemma lower_code [code]:
  "lower (Char b0 b1 b2 b3 b4 b5 b6 b7) =
     (if isupper (Char b0 b1 b2 b3 b4 b5 b6 b7) then Char b0 b1 b2 b3 b4 True b6 b7
      else Char b0 b1 b2 b3 b4 b5 b6 b7)"
proof (cases "isupper (Char b0 b1 b2 b3 b4 b5 b6 b7)")
  case True
  then have "\<not> b5" by (rule isupper_bit5)
  then have b: "b5 = False" by simp
  have e: "code (Char b0 b1 b2 b3 b4 b5 b6 b7) + 32 = of_char (Char b0 b1 b2 b3 b4 True b6 b7)"
    unfolding b code_def by (rule set_bit5)
  show ?thesis
    unfolding lower_def e by (simp only: True if_True char_of_char)
next
  case False
  then show ?thesis by (simp add: lower_def)
qed

definition str_lower :: "string \<Rightarrow> string" where
  "str_lower s = map lower s"

definition str_strip :: "string \<Rightarrow> string" where
  "str_strip s = rev (dropWhile isspace (rev (dropWhile isspace s)))"

text \<open>\<open>s.split()\<close>: the maximal runs of characters that are not white space.\<close>

fun split_acc :: "string \<Rightarrow> string \<Rightarrow> string list" where
  "split_acc w [] = (if w = [] then [] else [w])"
| "split_acc w (c # cs) =
     (if isspace c then (if w = [] then split_acc [] cs else w # split_acc [] cs)
      else split_acc (w @ [c]) cs)"

definition str_split :: "string \<Rightarrow> string list" where
  "str_split s = split_acc [] s"

text \<open>\<open>sep.join(ws)\<close> for the separator \<open>' '\<close>.\<close>

fun join_space :: "string list \<Rightarrow> string" where
  "join_space [] = []"
| "join_space [w] = w"
| "join_space (w # v # ws) = w @ '' '' @ join_space (v # ws)"

text \<open>\<open>text.find(sub)\<close>: the lowest index where \<open>sub\<close> starts, \<open>None\<close> for Python's \<open>-1\<close>.\<close>

fun str_find :: "string \<Rightarrow> string \<Rightarrow> nat option" where
  "str_find [] sub = (if sub = [] then Some 0 else None)"
| "str_find (c # cs) sub =
     (if prefix sub (c # cs) then Some 0 else map_option Suc (str_find cs sub))"

text \<open>\<open>sub in text\<close>.\<close>

definition str_contains :: "string \<Rightarrow> string \<Rightarrow> bool" where
  "str_contains text sub = (str_find text sub \<noteq> None)"

text \<open>\<open>s[a:b]\<close> for indices that are not negative.\<close>

definition slice :: "'a list \<Rightarrow> nat \<Rightarrow> nat \<Rightarrow> 'a list" where
  "slice s a b = take (b - a) (drop a s)"

section \<open>The regular expressions of the analyser\<close>

text \<open>
  Each pattern of the source is modelled by a function that scans the line from the left,
  as \<open>re.search\<close> and \<open>re.findall\<close> do. A scan that needs \<open>\b\<close> carries the
  character before the current position.
\<close>

text \<open>A literal compared under \<open>re.IGNORECASE\<close>.\<close>

fun ci_prefix :: "string \<Rightarrow> string \<Rightarrow> bool" where
  "ci_prefix [] s = True"
| "ci_prefix (p # ps) [] = False"
| "ci_prefix (p # ps) (c # cs) = (lower p = lower c \<and> ci_prefix ps cs)"

text \<open>\<open>\b\<close>: exactly one of the characters around the position is a word character.\<close>

definition word_boundary :: "char option \<Rightarrow> string \<Rightarrow> bool" where
  "word_boundary prev rest =
     ((case prev of None \<Rightarrow> False | Some c \<Rightarrow> isword c) \<noteq>
      (case rest of [] \<Rightarrow> False | c # _ \<Rightarrow> isword c))"

text \<open>The character before the position reached after \<open>n\<close> characters of \<open>rest\<close>.\<close>

definition prev_after :: "nat \<Rightarrow> char option \<Rightarrow> string \<Rightarrow> char option" where
  "prev_after n prev rest = (if n = 0 then prev else Some (rest ! (n - 1)))"

text \<open>
  \<open>re.compile(rf"\b{re.escape(lit)}s?\b", re.IGNORECASE)\<close> at one position: the optional
  \<open>s\<close> is tried first and given up when no word boundary follows it.
\<close>

definition plural_match_at :: "string \<Rightarrow> char option \<Rightarrow> string \<Rightarrow> bool" where
  "plural_match_at lit prev rest =
     (word_boundary prev rest \<and> ci_prefix lit rest \<and>
      (let rest1 = drop (length lit) rest in
         (case rest1 of [] \<Rightarrow> False
          | c # rest2 \<Rightarrow> lower c = CHR ''s'' \<and> word_boundary (Some c) rest2) \<or>
         word_boundary (prev_after (length lit) prev rest) rest1))"

fun plural_search_from :: "string \<Rightarrow> char option \<Rightarrow> string \<Rightarrow> bool" where
  "plural_search_from lit prev [] = plural_match_at lit prev []"
| "plural_search_from lit prev (c # cs) =
     (plural_match_at lit prev (c # cs) \<or> plural_search_from lit (Some c) cs)"

definition plural_search :: "string \<Rightarrow> string \<Rightarrow> bool" where
  "plural_search lit line = plural_search_from lit None line"

text \<open>
  \<open>rf'\b{re.escape(full_form)}\b(?!\s*\({re.escape(acronym)}\))'\<close> under
  \<open>re.IGNORECASE\<close>. The lookahead skips all white space and then needs the literal
  \<open>(acronym)\<close>, compared without regard to case like the rest of the pattern.
\<close>

definition trailing_token :: "string \<Rightarrow> string \<Rightarrow> bool" where
  "trailing_token acronym rest =
     ci_prefix (''('' @ acronym @ '')'') (dropWhile isspace rest)"

definition standalone_match_at :: "string \<Rightarrow> string \<Rightarrow> char option \<Rightarrow> string \<Rightarrow> bool" where
  "standalone_match_at full_form acronym prev rest =
     (word_boundary prev rest \<and> ci_prefix full_form rest \<and>
      (let rest1 = drop (length full_form) rest in
         word_boundary (prev_after (length full_form) prev rest) rest1 \<and>
         \<not> trailing_token acronym rest1))"

fun standalone_search_from :: "string \<Rightarrow> string \<Rightarrow> char option \<Rightarrow> string \<Rightarrow> bool" where
  "standalone_search_from full_form acronym prev [] =
     standalone_match_at full_form acronym prev []"
| "standalone_search_from full_form acronym prev (c # cs) =
     (standalone_match_at full_form acronym prev (c # cs) \<or>
      standalone_search_from full_form acronym (Some c) cs)"

definition standalone_search :: "string \<Rightarrow> string \<Rightarrow> string \<Rightarrow> bool" where
  "standalone_search full_form acronym line =
     standalone_search_from full_form acronym None line"

text \<open>
  \<open>[^}]+\}\<close>: a greedy run of characters other than the closing brace, not empty,
  and the brace that ends it. The result is the run and the text after the brace.
\<close>

definition brace_arg :: "string \<Rightarrow> (string \<times> string) option" where
  "brace_arg s =
     (let g = takeWhile (\<lambda>c. c \<noteq> CHR ''}'') s in
      case dropWhile (\<lambda>c. c \<noteq> CHR ''}'') s of
        [] \<Rightarrow> None
      | _ # rest \<Rightarrow> if g = [] then None else Some (g, rest))"

text \<open>A literal at the head of the text; the result is the text after it.\<close>

definition after_prefix :: "string \<Rightarrow> string \<Rightarrow> string option" where
  "after_prefix lit s = (if prefix lit s then Some (drop (length lit) s) else None)"

text \<open>\<open>r"\(([A-Z]{2,10})\)"\<close> at one position: the token and the text after the match.\<close>

definition paren_match_at :: "string \<Rightarrow> (string \<times> string) option" where
  "paren_match_at s =
     (case s of
        [] \<Rightarrow> None
      | c # cs \<Rightarrow>
          if c \<noteq> CHR ''('' then None
          else
            (let tok = takeWhile capital_AZ cs in
             case dropWhile capital_AZ cs of
               [] \<Rightarrow> None
             | d # rest \<Rightarrow>
                 if d = CHR '')'' \<and> 2 \<le> length tok \<and> length tok \<le> 10
                 then Some (tok, rest) else None))"

lemma paren_match_at_shorter:
  "paren_match_at s = Some (tok, rest) \<Longrightarrow> length rest < length s"
proof -
  assume a: "paren_match_at s = Some (tok, rest)"
  then obtain c cs where s: "s = c # cs"
    by (cases s) (auto simp: paren_match_at_def)
  from a s obtain d where d: "dropWhile capital_AZ cs = d # rest"
    by (auto simp: paren_match_at_def Let_def split: if_splits list.splits)
  have "length (dropWhile capital_AZ cs) \<le> length cs"
    by (rule length_dropWhile_le)
  with d s show ?thesis by simp
qed

text \<open>\<open>pattern.findall(line)\<close> for that pattern: the tokens of the matches, found from
  the left, each search starting where the previous match ended.\<close>

function paren_findall :: "string \<Rightarrow> string list" where
  "paren_findall [] = []"
| "paren_findall (c # cs) =
     (case paren_match_at (c # cs) of
        None \<Rightarrow> paren_findall cs
      | Some (tok, rest) \<Rightarrow> tok # paren_findall rest)"
  by pat_completeness auto
termination
  by (relation "measure length") (auto dest: paren_match_at_shorter)

text \<open>\<open>r"\\(?:input|include)\{([^}]+)\}"\<close> at one position.\<close>

definition include_match_at :: "string \<Rightarrow> (string \<times> string) option" where
  "include_match_at s =
     (case after_prefix (backslash # ''input{'') s of
        Some r \<Rightarrow> brace_arg r
      | None \<Rightarrow>
          (case after_prefix (backslash # ''include{'') s of
             Some r \<Rightarrow> brace_arg r
           | None \<Rightarrow> None))"

lemma brace_arg_shorter:
  "brace_arg s = Some (g, rest) \<Longrightarrow> length rest < length s"
proof -
  assume a: "brace_arg s = Some (g, rest)"
  then obtain d where d: "dropWhile (\<lambda>c. c \<noteq> CHR ''}'') s = d # rest"
    by (auto simp: brace_arg_def Let_def split: list.splits if_splits)
  have "length (dropWhile (\<lambda>c. c \<noteq> CHR ''}'') s) \<le> length s"
    by (rule length_dropWhile_le)
  with d show ?thesis by simp
qed

lemma include_match_at_shorter:
  "include_match_at s = Some (g, rest) \<Longrightarrow> length rest < length s"
  by (auto simp: include_match_at_def after_prefix_def
      split: option.splits if_splits dest!: brace_arg_shorter)

function include_findall :: "string \<Rightarrow> string list" where
  "include_findall [] = []"
| "include_findall (c # cs) =
     (case include_match_at (c # cs) of
        None \<Rightarrow> include_findall cs
      | Some (g, rest) \<Rightarrow> g # include_findall rest)"
  by pat_completeness auto
termination
  by (relation "measure length") (auto dest: include_match_at_shorter)

text \<open>
  \<open>r"\\newacronym\{([^\}]+)\}\{([^\}]+)\}\{([^\}]+)\}"\<close> at one position, and
  \<open>pattern.search(line)\<close>: the groups of the leftmost match.
\<close>

definition newacronym_match_at :: "string \<Rightarrow> (string \<times> string \<times> string) option" where
  "newacronym_match_at s =
     (case after_prefix (backslash # ''newacronym{'') s of
        None \<Rightarrow> None
      | Some r0 \<Rightarrow>
          (case brace_arg r0 of
             None \<Rightarrow> None
           | Some (key, r1) \<Rightarrow>
               (case after_prefix ''{'' r1 of
                  None \<Rightarrow> None
                | Some r2 \<Rightarrow>
                    (case brace_arg r2 of
                       None \<Rightarrow> None
                     | Some (short, r3) \<Rightarrow>
                         (case after_prefix ''{'' r3 of
                            None \<Rightarrow> None
                          | Some r4 \<Rightarrow>
                              (case brace_arg r4 of
                                 None \<Rightarrow> None
                               | Some (full, r5) \<Rightarrow> Some (key, short, full)))))))"

fun newacronym_search :: "string \<Rightarrow> (string \<times> string \<times> string) option" where
  "newacronym_search [] = None"
| "newacronym_search (c # cs) =
     (case newacronym_match_at (c # cs) of
        Some g \<Rightarrow> Some g
      | None \<Rightarrow> newacronym_search cs)"

section \<open>Data model\<close>

text \<open>A source record \<open>(path, line_no, line)\<close>; \<open>'p\<close> is the type of resolved paths.\<close>

type_synonym 'p entry = "'p \<times> nat \<times> string"

text \<open>The value stored for one \<open>\newacronym\<close> key: the source's inner dict with the keys
  \<open>"short"\<close>, \<open>"full"\<close>, \<open>"file"\<close> and \<open>"line"\<close>.\<close>

record 'p acronym_def =
  def_short :: string
  def_full :: string
  def_file :: 'p
  def_line :: nat

text \<open>
  A Python \<open>dict\<close> is an association list in insertion order with distinct keys.
  \<open>dict_set\<close> is \<open>d[k] = v\<close>, \<open>dict_get\<close> is \<open>d.get(k, [])\<close>, \<open>dict_append\<close> is
  \<open>d[k].append(v)\<close> on a \<open>defaultdict(list)\<close>, and \<open>dict_add\<close> is the source's
  \<open>if k not in d: d[k] = set()\<close> followed by \<open>d[k].add(v)\<close>. A Python \<open>set\<close> of strings
  is the list of its elements in the order in which they were added, without repetitions.
  The order in which a \<open>for\<close> loop visits a set is another matter: it follows the hashes of
  the strings, which change from one interpreter process to the next, and is a parameter
  of the scan.
\<close>

fun dict_set :: "('k \<times> 'v) list \<Rightarrow> 'k \<Rightarrow> 'v \<Rightarrow> ('k \<times> 'v) list" where
  "dict_set [] k v = [(k, v)]"
| "dict_set ((k', v') # d) k v =
     (if k' = k then (k', v) # d else (k', v') # dict_set d k v)"

definition dict_get :: "('k \<times> 'v list) list \<Rightarrow> 'k \<Rightarrow> 'v list" where
  "dict_get d k = (case map_of d k of None \<Rightarrow> [] | Some vs \<Rightarrow> vs)"

fun dict_append :: "('k \<times> 'v list) list \<Rightarrow> 'k \<Rightarrow> 'v \<Rightarrow> ('k \<times> 'v list) list" where
  "dict_append [] k v = [(k, [v])]"
| "dict_append ((k', vs) # d) k v =
     (if k' = k then (k', vs @ [v]) # d else (k', vs) # dict_append d k v)"

definition set_add :: "'v list \<Rightarrow> 'v \<Rightarrow> 'v list" where
  "set_add vs v = (if v \<in> set vs then vs else vs @ [v])"

fun dict_add :: "('k \<times> 'v list) list \<Rightarrow> 'k \<Rightarrow> 'v \<Rightarrow> ('k \<times> 'v list) list" where
  "dict_add [] k v = [(k, [v])]"
| "dict_add ((k', vs) # d) k v =
     (if k' = k then (k', set_add vs v) # d else (k', vs) # dict_add d k v)"

text \<open>The report of \<open>scan_acronyms\<close>, one field for each key of the source's dict;
  \<open>undefined_list\<close> is the key \<open>"undefined"\<close>.\<close>

record 'p report =
  used_full :: "(string \<times> 'p entry list) list"
  used_short :: "(string \<times> 'p entry list) list"
  undefined_list :: "(string \<times> 'p \<times> nat \<times> string) list"
  undefined_full_forms :: "(string \<times> string list) list"
  inconsistent_usage :: "(string \<times> ('p \<times> nat \<times> string \<times> string) list) list"

section \<open>Document Loader\<close>

text \<open>
  The document tree is a finite table from paths to files. A path of the table exists;
  \<open>open\<close> and \<open>readlines\<close> succeed on a \<open>Readable\<close> file and give its lines, each with
  its line end, and raise on an \<open>Unreadable\<close> one (a directory, a file without read
  permission, bytes that are not UTF-8). \<open>Path(ROOT_DIR) / filename\<close> belongs to
  \<open>pathlib\<close>; the model takes it as the parameter \<open>resolve\<close>. The source compares these
  paths as they are spelled: no \<open>..\<close> is resolved and no link is followed, so that one
  file of the disk can stand in the table under several paths.
\<close>

datatype file_content = Readable "string list" | Unreadable

text \<open>The exception of \<open>open\<close> or \<open>readlines\<close>; the model keeps one value for it.\<close>

datatype error = OSError

text \<open>Lines 35-37: the name of an included file, with the extension added when missing.\<close>

definition with_tex :: "string \<Rightarrow> string" where
  "with_tex m = (let included = str_strip m in
     if \<not> suffix ''.tex'' included then included @ ''.tex'' else included)"

text \<open>Lines 20-21: \<open>seen=None\<close> stands for a fresh, empty set.\<close>

definition seen_of :: "'p set option \<Rightarrow> 'p set" where
  "seen_of seen = (case seen of None \<Rightarrow> {} | Some s \<Rightarrow> s)"

text \<open>
  \<open>read_latex_recursive\<close> with its two loops: \<open>read_lines\<close> is the loop over the
  numbered lines of one file, \<open>read_includes\<close> the loop over the inclusion directives of
  one line. The set \<open>seen\<close> is one object that every call mutates, so each function
  takes it and returns it with the records. An exception ends the whole load.
\<close>

function read_latex_recursive ::
    "(string \<Rightarrow> 'p) \<Rightarrow> ('p \<times> file_content) list \<Rightarrow> string \<Rightarrow> 'p set option \<Rightarrow>
     error + ('p entry list \<times> 'p set)"
  and read_lines ::
    "(string \<Rightarrow> 'p) \<Rightarrow> ('p \<times> file_content) list \<Rightarrow> 'p \<Rightarrow> nat \<Rightarrow> string list \<Rightarrow> 'p set \<Rightarrow>
     error + ('p entry list \<times> 'p set)"
  and read_includes ::
    "(string \<Rightarrow> 'p) \<Rightarrow> ('p \<times> file_content) list \<Rightarrow> string list \<Rightarrow> 'p set \<Rightarrow>
     error + ('p entry list \<times> 'p set)"
where
  "read_latex_recursive resolve fs filename seen =
     (let seen0 = seen_of seen; path = resolve filename in
      if path \<in> seen0 \<or> map_of fs path = None then Inr ([], seen0)
      else
        (case map_of fs path of
           Some (Readable lines) \<Rightarrow> read_lines resolve fs path 1 lines (insert path seen0)
         | Some Unreadable \<Rightarrow> Inl OSError
         | None \<Rightarrow> Inr ([], seen0)))"
| "read_lines resolve fs path i [] seen = Inr ([], seen)"
| "read_lines resolve fs path i (line # lines) seen =
     (case read_includes resolve fs (include_findall line) seen of
        Inl e \<Rightarrow> Inl e
      | Inr (included, seen1) \<Rightarrow>
          (case read_lines resolve fs path (Suc i) lines seen1 of
             Inl e \<Rightarrow> Inl e
           | Inr (entries, seen2) \<Rightarrow>
               Inr ((path, i, str_strip line) # included @ entries, seen2)))"
| "read_includes resolve fs [] seen = Inr ([], seen)"
| "read_includes resolve fs (m # ms) seen =
     (case read_latex_recursive resolve fs (with_tex m) (Some seen) of
        Inl e \<Rightarrow> Inl e
      | Inr (entries, seen1) \<Rightarrow>
          (case read_includes resolve fs ms seen1 of
             Inl e \<Rightarrow> Inl e
           | Inr (rest, seen2) \<Rightarrow> Inr (entries @ rest, seen2)))"
  by pat_completeness auto

text \<open>The visited set only grows; termination of the nested calls rests on it.\<close>

lemma seen_grows_partial:
  "read_latex_recursive_read_lines_read_includes_dom (Inl (resolve, fs, filename, seen)) \<Longrightarrow>
     (\<forall>es s'. read_latex_recursive resolve fs filename seen = Inr (es, s') \<longrightarrow> seen_of seen \<subseteq> s')"
  "read_latex_recursive_read_lines_read_includes_dom (Inr (Inl (resolve, fs, path, i, lines, seen1))) \<Longrightarrow>
     (\<forall>es s'. read_lines resolve fs path i lines seen1 = Inr (es, s') \<longrightarrow> seen1 \<subseteq> s')"
  "read_latex_recursive_read_lines_read_includes_dom (Inr (Inr (resolve, fs, ms, seen2))) \<Longrightarrow>
     (\<forall>es s'. read_includes resolve fs ms seen2 = Inr (es, s') \<longrightarrow> seen2 \<subseteq> s')"
proof (induction rule: read_latex_recursive_read_lines_read_includes.pinduct)
  case (1 resolve fs filename seen)
  then show ?case
    by (auto simp: read_latex_recursive.psimps Let_def split: if_splits option.splits file_content.splits)
next
  case (2 resolve fs path i seen)
  then show ?case by (simp add: read_lines.psimps)
next
  case (3 resolve fs path i line lines seen)
  then show ?case
    by (auto simp: read_lines.psimps split: sum.splits prod.splits) blast+
next
  case (4 resolve fs seen)
  then show ?case by (simp add: read_includes.psimps)
next
  case (5 resolve fs m ms seen)
  then show ?case
    by (auto simp: read_includes.psimps seen_of_def split: sum.splits prod.splits) blast+
qed

termination read_latex_recursive
proof (relation "inv_image (less_than <*lex*> less_than <*lex*> less_than)
     (\<lambda>x. case x of
        Inl (resolve, fs, filename, seen) \<Rightarrow> (card (fst ` set fs - seen_of seen), 0::nat, 0::nat)
      | Inr (Inl (resolve, fs, path, i, lines, seen)) \<Rightarrow> (card (fst ` set fs - seen), 2, length lines)
      | Inr (Inr (resolve, fs, ms, seen)) \<Rightarrow> (card (fst ` set fs - seen), 1, length ms))", goal_cases)
  case 1
  show ?case by (intro wf_inv_image wf_lex_prod wf_less_than)
next
  case (2 resolve fs filename seen x xa x2 x1)
  then have "xa \<in> fst ` set fs" "xa \<notin> seen_of seen"
    by (force dest: map_of_SomeD)+
  then have "card (fst ` set fs - insert xa (seen_of seen)) < card (fst ` set fs - seen_of seen)"
    by (intro psubset_card_mono) auto
  then show ?case using 2 by simp
next
  case 3
  then show ?case by simp
next
  case (4 resolve fs path i line lines seen b x y)
  then have "seen \<subseteq> y" using seen_grows_partial(3) by metis
  then have "card (fst ` set fs - y) \<le> card (fst ` set fs - seen)"
    by (intro card_mono) auto
  then show ?case by auto
next
  case 5
  then show ?case by (simp add: seen_of_def)
next
  case (6 resolve fs m ms seen b x y)
  then have "seen \<subseteq> y" using seen_grows_partial(1)[of resolve fs "with_tex m" "Some seen"] by (auto simp: seen_of_def)
  then have "card (fst ` set fs - y) \<le> card (fst ` set fs - seen)"
    by (intro card_mono) auto
  then show ?case by auto
qed

section \<open>Definition Extractor\<close>

text \<open>The body of the loop: the first match of the line, if any, overwrites the key.\<close>

definition extract_step ::
  "(string \<times> 'p acronym_def) list \<Rightarrow> 'p entry \<Rightarrow> (string \<times> 'p acronym_def) list" where
  "extract_step acronym_defs e =
     (case e of (path, line_no, line) \<Rightarrow>
        (case newacronym_search line of
           None \<Rightarrow> acronym_defs
         | Some (key, short, full) \<Rightarrow>
             dict_set acronym_defs key
               \<lparr>def_short = str_strip short, def_full = str_strip full,
                def_file = path, def_line = line_no\<rparr>))"

definition extract_defined_acronyms :: "'p entry list \<Rightarrow> (string \<times> 'p acronym_def) list" where
  "extract_defined_acronyms entries = foldl extract_step [] entries"

section \<open>Usage Scanner, Expansion Recoverer and Inconsistency Detector\<close>

definition begin_document :: string where
  "begin_document = backslash # ''begin{document}''"

text \<open>Lines 66-74 of the source: the records from the first one that contains the
  document-start marker, that record included.\<close>

fun content_from :: "bool \<Rightarrow> 'p entry list \<Rightarrow> 'p entry list" where
  "content_from document_started [] = []"
| "content_from document_started ((path, line_no, line) # entries) =
     (let started =
        (if \<not> document_started \<and> str_contains line begin_document then True
         else document_started)
      in if started then (path, line_no, line) # content_from started entries
         else content_from started entries)"

text \<open>Lines 76-95: for each definition, the body records in which the pattern of the long
  form, and of the short form, is found.\<close>

definition usage_step ::
  "string \<Rightarrow> string \<Rightarrow> string \<Rightarrow>
   (string \<times> 'p entry list) list \<times> (string \<times> 'p entry list) list \<Rightarrow> 'p entry \<Rightarrow>
   (string \<times> 'p entry list) list \<times> (string \<times> 'p entry list) list" where
  "usage_step key full short used e =
     (case e of (path, line_no, line) \<Rightarrow>
        (if plural_search full line
         then dict_append (fst used) key (path, line_no, line) else fst used,
         if plural_search short line
         then dict_append (snd used) key (path, line_no, line) else snd used))"

definition scan_usage ::
  "(string \<times> 'p acronym_def) list \<Rightarrow> 'p entry list \<Rightarrow>
   (string \<times> 'p entry list) list \<times> (string \<times> 'p entry list) list" where
  "scan_usage acronym_defs content_entries =
     foldl (\<lambda>used (key, data).
        foldl (usage_step key (def_full data) (def_short data)) used content_entries)
       ([], []) acronym_defs"

definition roman_numerals :: "string list" where
  "roman_numerals =
     [''I'', ''II'', ''III'', ''IV'', ''V'', ''VI'', ''VII'', ''VIII'', ''IX'', ''X'',
      ''XI'', ''XII'', ''XIII'', ''XIV'', ''XV'', ''XVI'', ''XVII'', ''XVIII'', ''XIX'', ''XX'']"

definition connectors :: "string list" where
  "connectors =
     [''of'', ''and'', ''for'', ''the'', ''&'', ''to'', ''in'', ''on'', ''with'', ''at'',
      ''by'', ''from'', ''de'']"

text \<open>\<open>word[0].isupper()\<close>; the words come from \<open>split\<close> and are never empty.\<close>

definition starts_upper :: "string \<Rightarrow> bool" where
  "starts_upper word = (case word of [] \<Rightarrow> False | c # _ \<Rightarrow> isupper c)"

definition includable :: "string \<Rightarrow> bool" where
  "includable word = (starts_upper word \<or> str_lower word \<in> set connectors)"

text \<open>Lines 137-144: the loop over the candidate words, nearest to the token first, that
  stops at the first word that is neither capitalised nor a connector.\<close>

fun collect_words :: "string list \<Rightarrow> string list" where
  "collect_words [] = []"
| "collect_words (word # words) =
     (if includable word then word # collect_words words else [])"

text \<open>Lines 120-152: the candidate long form before the first \<open>(acronym)\<close> of the line,
  \<open>None\<close> when no candidate passes the checks.\<close>

definition recover_full_form :: "string \<Rightarrow> string \<Rightarrow> string option" where
  "recover_full_form acronym line =
     (case str_find line (''('' @ acronym @ '')'') of
        None \<Rightarrow> None
      | Some start \<Rightarrow>
          (let text_before = str_strip (take start line);
               words = str_split text_before
           in if words = [] then None
              else
                (let candidate_words = drop (length words - 5) words;
                     full_form_words = collect_words (rev candidate_words)
                 in if full_form_words = [] then None
                    else
                      (let full_form = join_space (rev full_form_words);
                           capital_words = filter starts_upper full_form_words
                       in if capital_words \<noteq> [] \<and> length full_form_words \<le> 6
                          then Some full_form else None))))"

text \<open>Lines 110-155: one match of the bracket pattern in a body record. The state is the
  pair of \<open>undefined_counts\<close> and \<open>undefined_full_forms\<close>.\<close>

definition undefined_step ::
  "string list \<Rightarrow> 'p \<Rightarrow> nat \<Rightarrow> string \<Rightarrow>
   (string \<times> 'p entry list) list \<times> (string \<times> string list) list \<Rightarrow> string \<Rightarrow>
   (string \<times> 'p entry list) list \<times> (string \<times> string list) list" where
  "undefined_step defined_shorts path line_no line st m =
     (let acronym = str_strip m in
      if acronym \<notin> set defined_shorts \<and> acronym \<notin> set roman_numerals then
        (dict_append (fst st) acronym (path, line_no, str_strip line),
         (case recover_full_form acronym line of
            None \<Rightarrow> snd st
          | Some full_form \<Rightarrow> dict_add (snd st) acronym full_form))
      else st)"

definition scan_undefined ::
  "string list \<Rightarrow> 'p entry list \<Rightarrow>
   (string \<times> 'p entry list) list \<times> (string \<times> string list) list" where
  "scan_undefined defined_shorts content_entries =
     foldl (\<lambda>st (path, line_no, line).
        foldl (undefined_step defined_shorts path line_no line) st (paren_findall line))
       ([], []) content_entries"

text \<open>Lines 157-160: only tokens recorded two or more times are reported.\<close>

definition report_step ::
  "(string \<times> 'p \<times> nat \<times> string) list \<Rightarrow> string \<times> 'p entry list \<Rightarrow>
   (string \<times> 'p \<times> nat \<times> string) list" where
  "report_step reported item =
     (case item of (acronym, occurrences) \<Rightarrow>
        if 2 \<le> length occurrences
        then reported @ map (\<lambda>(path, line_no, line). (acronym, path, line_no, line)) occurrences
        else reported)"

definition report_repeated ::
  "(string \<times> 'p entry list) list \<Rightarrow> (string \<times> 'p \<times> nat \<times> string) list" where
  "report_repeated undefined_counts = foldl report_step [] undefined_counts"

text \<open>Lines 162-175: the body records with a long form that the token does not follow.
  The loop of line 167 visits the set of long forms of a token in the sequence
  \<open>order full_forms\<close>: \<open>order\<close> stands for the iteration order of the process, a
  rearrangement of the elements of the set.\<close>

definition inconsistent_step ::
  "string \<Rightarrow> string \<Rightarrow> (string \<times> ('p \<times> nat \<times> string \<times> string) list) list \<Rightarrow> 'p entry \<Rightarrow>
   (string \<times> ('p \<times> nat \<times> string \<times> string) list) list" where
  "inconsistent_step acronym full_form usage e =
     (case e of (path, line_no, line) \<Rightarrow>
        if standalone_search full_form acronym line
        then dict_append usage acronym (path, line_no, str_strip line, full_form)
        else usage)"

definition scan_inconsistent ::
  "(string list \<Rightarrow> string list) \<Rightarrow> 'p entry list \<Rightarrow> (string \<times> string list) list \<Rightarrow>
   (string \<times> ('p \<times> nat \<times> string \<times> string) list) list" where
  "scan_inconsistent order content_entries recovered =
     foldl (\<lambda>usage (acronym, full_forms).
        foldl (\<lambda>usage full_form.
           foldl (inconsistent_step acronym full_form) usage content_entries)
          usage (order full_forms))
       [] recovered"

definition scan_acronyms ::
  "(string list \<Rightarrow> string list) \<Rightarrow> 'p entry list \<Rightarrow> (string \<times> 'p acronym_def) list \<Rightarrow>
   'p report" where
  "scan_acronyms order entries acronym_defs =
     (let content_entries = content_from False entries;
          used = scan_usage acronym_defs content_entries;
          defined_shorts = map (\<lambda>(key, v). def_short v) acronym_defs;
          found = scan_undefined defined_shorts content_entries
      in \<lparr>used_full = fst used,
          used_short = snd used,
          undefined_list = report_repeated (fst found),
          undefined_full_forms = snd found,
          inconsistent_usage = scan_inconsistent order content_entries (snd found)\<rparr>)"

section \<open>Sentence Extractor\<close>

definition abbreviations :: "string list" where
  "abbreviations =
     [''e.g'', ''i.e'', ''etc'', ''vs'', ''cf'', ''al'', ''fig'', ''eq'', ''sec'', ''ch'',
      ''vol'', ''ed'', ''pp'', ''no'', ''mr'', ''mrs'', ''dr'', ''prof'', ''inc'', ''ltd'',
      ''corp'']"

text \<open>
  \<open>re.search(r'\S+@\S+$', before_context)\<close>: the run of characters other than white space
  that ends the text (or ends before a final line feed, where \<open>$\<close> also matches) has an
  \<open>@\<close> with a character on each side.
\<close>

definition email_before :: "string \<Rightarrow> bool" where
  "email_before before_context =
     (let body = (if before_context \<noteq> [] \<and> last before_context = CHR 0x0A
                  then butlast before_context else before_context);
          run = rev (takeWhile (\<lambda>c. \<not> isspace c) (rev body))
      in CHR ''@'' \<in> set (tl (butlast run)))"

text \<open>Lines 196-233: the nested \<open>is_sentence_boundary\<close>.\<close>

definition is_sentence_boundary :: "string \<Rightarrow> nat \<Rightarrow> bool" where
  "is_sentence_boundary text pos =
     (if length text \<le> pos \<or> text ! pos \<notin> set ''.!?'' then False
      else
        (let before_context = str_lower (slice text (pos - 10) pos);
             after_context = (if pos + 1 < length text then slice text (pos + 1) (pos + 5) else [])
         in if list_ex (\<lambda>abbr. suffix abbr before_context) abbreviations then False
            else if (0 < pos \<and> pos < length text - 1) \<and>
                    email_before before_context \<and> \<not> prefix '' '' after_context then False
            else if str_contains before_context ''http'' \<or> str_contains before_context ''www''
              then False
            else if (0 < pos \<and> pos < length text - 1) \<and>
                    isdigit (text ! (pos - 1)) \<and> isdigit (text ! (pos + 1)) then False
            else if after_context \<noteq> [] \<and> islower (hd after_context) then False
            else True))"

text \<open>Lines 236-240: the loop over \<open>range(target_pos - 1, -1, -1)\<close>, given the indices
  still to visit.\<close>

fun find_sentence_start :: "string \<Rightarrow> nat list \<Rightarrow> nat" where
  "find_sentence_start text [] = 0"
| "find_sentence_start text (i # rest) =
     (if is_sentence_boundary text i then i + 1 else find_sentence_start text rest)"

text \<open>Lines 243-247: the loop over \<open>range(target_pos, len(text))\<close>.\<close>

fun find_sentence_end :: "string \<Rightarrow> nat list \<Rightarrow> nat" where
  "find_sentence_end text [] = length text"
| "find_sentence_end text (i # rest) =
     (if is_sentence_boundary text i then i + 1 else find_sentence_end text rest)"

definition break_chars :: "string list" where
  "break_chars = ['';'', '','', '':'', ''--'', '' and '', '' but '', '' while '', '' although '']"

text \<open>The inner loop of lines 267-270 and 276-279: the first break token that stands at
  position \<open>i\<close> of the sentence.\<close>

definition break_at :: "string \<Rightarrow> nat \<Rightarrow> string option" where
  "break_at sentence i =
     find (\<lambda>break_char. slice sentence i (i + length break_char) = break_char) break_chars"

text \<open>Lines 266-272: the loop over \<open>range(context_before, 0, -1)\<close>; it goes on while
  \<open>best_start\<close> equals \<open>context_before\<close>.\<close>

fun find_best_start :: "string \<Rightarrow> nat \<Rightarrow> nat \<Rightarrow> nat list \<Rightarrow> nat" where
  "find_best_start sentence context_before best_start [] = best_start"
| "find_best_start sentence context_before best_start (i # rest) =
     (let best =
        (case break_at sentence i of
           None \<Rightarrow> best_start
         | Some break_char \<Rightarrow> i + length break_char)
      in if best \<noteq> context_before then best
         else find_best_start sentence context_before best rest)"

text \<open>Lines 275-281: the loop over \<open>range(context_after, len(sentence))\<close>.\<close>

fun find_best_end :: "string \<Rightarrow> nat \<Rightarrow> nat \<Rightarrow> nat list \<Rightarrow> nat" where
  "find_best_end sentence context_after best_end [] = best_end"
| "find_best_end sentence context_after best_end (i # rest) =
     (let best =
        (case break_at sentence i of
           None \<Rightarrow> best_end
         | Some break_char \<Rightarrow> i)
      in if best \<noteq> context_after then best
         else find_best_end sentence context_after best rest)"

text \<open>Lines 254-288: the attempt to narrow a sentence of more than 400 characters.\<close>

definition narrow_sentence :: "string \<Rightarrow> string \<Rightarrow> nat \<Rightarrow> nat \<Rightarrow> string" where
  "narrow_sentence sentence target_text target_pos sentence_start =
     (let context_before = target_pos - sentence_start - 100;
          context_after = min (length sentence) (target_pos - sentence_start + 150);
          best_start = find_best_start sentence context_before context_before
                         (rev [1..<Suc context_before]);
          best_end = find_best_end sentence context_after context_after
                       [context_after..<length sentence];
          focused_sentence = str_strip (slice sentence best_start best_end)
      in if str_contains focused_sentence target_text \<and> 30 < length focused_sentence
         then focused_sentence else sentence)"

definition extract_sentence_containing_text :: "string \<Rightarrow> string \<Rightarrow> string" where
  "extract_sentence_containing_text text target_text =
     (case str_find text target_text of
        None \<Rightarrow> str_strip text
      | Some target_pos \<Rightarrow>
          (let sentence_start = find_sentence_start text (rev [0..<target_pos]);
               sentence_end = find_sentence_end text [target_pos..<length text];
               sentence = str_strip (slice text sentence_start sentence_end);
               sentence = (if 400 < length sentence
                           then narrow_sentence sentence target_text target_pos sentence_start
                           else sentence)
           in if length sentence < 20 \<or> \<not> str_contains sentence target_text
              then str_strip (slice text (target_pos - 150) (min (length text) (target_pos + 200)))
              else sentence))"

section \<open>The analysis\<close>

definition ENTRY_FILE :: string where
  "ENTRY_FILE = ''main.tex''"

text \<open>
  \<open>main\<close> up to the call of the report renderer: what the renderer receives, or the
  exception that ends the run.
\<close>

definition main ::
  "(string list \<Rightarrow> string list) \<Rightarrow> (string \<Rightarrow> 'p) \<Rightarrow> ('p \<times> file_content) list \<Rightarrow>
   error + ((string \<times> 'p acronym_def) list \<times> 'p report)" where
  "main order resolve fs =
     (case read_latex_recursive resolve fs ENTRY_FILE None of
        Inl e \<Rightarrow> Inl e
      | Inr (entries, seen) \<Rightarrow>
          (let acronym_defs = extract_defined_acronyms entries;
               report = scan_acronyms order entries acronym_defs
           in Inr (acronym_defs, report)))"

text \<open>Two iteration orders of a set, for the examples: the order in which the elements
  were added, and the reverse of it.\<close>

definition as_inserted :: "string list \<Rightarrow> string list" where
  "as_inserted xs = xs"

definition latest_first :: "string list \<Rightarrow> string list" where
  "latest_first xs = rev xs"

definition newline :: char where
  "newline = CHR 0x0A"

section \<open>Properties of the loader\<close>

text \<open>The records of one file as the loader writes them, and the records that a record
  sequence holds for one path.\<close>

definition own_records :: "'p \<Rightarrow> nat \<Rightarrow> string list \<Rightarrow> 'p entry list" where
  "own_records path i lines = map (\<lambda>(n, line). (path, n, str_strip line)) (enumerate i lines)"

definition file_records :: "('p \<times> file_content) list \<Rightarrow> 'p \<Rightarrow> 'p entry list" where
  "file_records fs p =
     (case map_of fs p of Some (Readable lines) \<Rightarrow> own_records p 1 lines | _ \<Rightarrow> [])"

definition records_of :: "'p \<Rightarrow> 'p entry list \<Rightarrow> 'p entry list" where
  "records_of p entries = filter (\<lambda>e. fst e = p) entries"

lemma records_of_simps [simp]:
  "records_of p [] = []"
  "records_of p ((q, n, l) # es) = (if q = p then (q, n, l) # records_of p es else records_of p es)"
  "records_of p (es @ es') = records_of p es @ records_of p es'"
  by (auto simp: records_of_def)

lemma own_records_simps [simp]:
  "own_records p i [] = []"
  "own_records p i (l # ls) = (p, i, str_strip l) # own_records p (Suc i) ls"
  by (auto simp: own_records_def enumerate_simps)

lemma loader_invariant:
  "\<forall>es s'. read_latex_recursive resolve fs filename seen = Inr (es, s') \<longrightarrow>
     seen_of seen \<subseteq> s' \<and>
     (\<forall>p. records_of p es = (if p \<in> s' - seen_of seen then file_records fs p else []))"
  "path \<in> seen1 \<longrightarrow>
   (\<forall>es s'. read_lines resolve fs path i lines seen1 = Inr (es, s') \<longrightarrow>
     seen1 \<subseteq> s' \<and>
     (\<forall>p. records_of p es =
        (if p = path then own_records path i lines
         else if p \<in> s' - seen1 then file_records fs p else [])))"
  "\<forall>es s'. read_includes resolve fs ms seen2 = Inr (es, s') \<longrightarrow>
     seen2 \<subseteq> s' \<and>
     (\<forall>p. records_of p es = (if p \<in> s' - seen2 then file_records fs p else []))"
proof (induction resolve fs filename seen and resolve fs path i lines seen1 and resolve fs ms seen2
    rule: read_latex_recursive_read_lines_read_includes.induct)
  case (1 resolve fs filename seen)
  show ?case
  proof (intro allI impI)
    fix es s'
    assume r: "read_latex_recursive resolve fs filename seen = Inr (es, s')"
    let ?path = "resolve filename"
    show "seen_of seen \<subseteq> s' \<and>
      (\<forall>p. records_of p es = (if p \<in> s' - seen_of seen then file_records fs p else []))"
    proof (cases "?path \<in> seen_of seen \<or> map_of fs ?path = None")
      case True
      with r show ?thesis by (auto simp: Let_def)
    next
      case False
      with r obtain lines where l: "map_of fs ?path = Some (Readable lines)"
        and rl: "read_lines resolve fs ?path 1 lines (insert ?path (seen_of seen)) = Inr (es, s')"
        by (auto simp: Let_def split: option.splits file_content.splits)
      from "1.IH"[OF refl refl False l refl] rl
      have sub: "insert ?path (seen_of seen) \<subseteq> s'"
        and rec: "\<And>p. records_of p es =
          (if p = ?path then own_records ?path 1 lines
           else if p \<in> s' - insert ?path (seen_of seen) then file_records fs p else [])"
        by auto
      from sub False l rec show ?thesis
        by (auto simp: file_records_def)
    qed
  qed
next
  case (2 resolve fs path i seen)
  show ?case by simp
next
  case (3 resolve fs path i line lines seen)
  show ?case
  proof (intro allI impI)
    fix es s'
    assume p: "path \<in> seen"
      and r: "read_lines resolve fs path i (line # lines) seen = Inr (es, s')"
    from r obtain inc seen1 ents where
      a: "read_includes resolve fs (include_findall line) seen = Inr (inc, seen1)" and
      b: "read_lines resolve fs path (Suc i) lines seen1 = Inr (ents, s')" and
      es: "es = (path, i, str_strip line) # inc @ ents"
      by (auto split: sum.splits prod.splits)
    from "3.IH"(1) a have s1: "seen \<subseteq> seen1"
      and r1: "\<And>q. records_of q inc = (if q \<in> seen1 - seen then file_records fs q else [])"
      by auto
    from p s1 have p1: "path \<in> seen1" by auto
    from "3.IH"(2)[OF a refl] p1 b have s2: "seen1 \<subseteq> s'"
      and r2: "\<And>q. records_of q ents =
        (if q = path then own_records path (Suc i) lines
         else if q \<in> s' - seen1 then file_records fs q else [])"
      by auto
    show "seen \<subseteq> s' \<and>
      (\<forall>q. records_of q es =
        (if q = path then own_records path i (line # lines)
         else if q \<in> s' - seen then file_records fs q else []))"
      using s1 s2 p by (auto simp: es r1 r2)
  qed
next
  case (4 resolve fs seen)
  show ?case by simp
next
  case (5 resolve fs m ms seen)
  show ?case
  proof (intro allI impI)
    fix es s'
    assume r: "read_includes resolve fs (m # ms) seen = Inr (es, s')"
    from r obtain ents seen1 rest where
      a: "read_latex_recursive resolve fs (with_tex m) (Some seen) = Inr (ents, seen1)" and
      b: "read_includes resolve fs ms seen1 = Inr (rest, s')" and
      es: "es = ents @ rest"
      by (auto split: sum.splits prod.splits)
    from "5.IH"(1) a have s1: "seen \<subseteq> seen1"
      and r1: "\<And>q. records_of q ents = (if q \<in> seen1 - seen then file_records fs q else [])"
      by (auto simp: seen_of_def)
    from "5.IH"(2)[OF a refl] b have s2: "seen1 \<subseteq> s'"
      and r2: "\<And>q. records_of q rest = (if q \<in> s' - seen1 then file_records fs q else [])"
      by auto
    show "seen \<subseteq> s' \<and>
      (\<forall>q. records_of q es = (if q \<in> s' - seen then file_records fs q else []))"
      using s1 s2 by (auto simp: es r1 r2)
  qed
qed

subsection \<open>The inclusion graph\<close>

text \<open>
  The names that the directives of a file's lines give, as paths; one file includes
  another when it can be read, one of its directives names the other, and the other
  exists. A path is reachable from a file name when the name's own path exists and a
  chain of inclusions leads from it to the path.
\<close>

definition included_paths :: "(string \<Rightarrow> 'p) \<Rightarrow> string list \<Rightarrow> 'p list" where
  "included_paths resolve lines =
     map (\<lambda>m. resolve (with_tex m)) (concat (map include_findall lines))"

definition file_includes :: "(string \<Rightarrow> 'p) \<Rightarrow> ('p \<times> file_content) list \<Rightarrow> 'p \<Rightarrow> 'p \<Rightarrow> bool" where
  "file_includes resolve fs p q =
     (case map_of fs p of
        Some (Readable lines) \<Rightarrow> q \<in> set (included_paths resolve lines) \<and> map_of fs q \<noteq> None
      | _ \<Rightarrow> False)"

definition reachable ::
  "(string \<Rightarrow> 'p) \<Rightarrow> ('p \<times> file_content) list \<Rightarrow> string \<Rightarrow> 'p \<Rightarrow> bool" where
  "reachable resolve fs filename p =
     (map_of fs (resolve filename) \<noteq> None \<and>
      (resolve filename, p) \<in> {(a, b). file_includes resolve fs a b}\<^sup>*)"

lemma included_paths_Cons:
  "set (included_paths resolve (line # lines)) =
     (\<lambda>m. resolve (with_tex m)) ` set (include_findall line) \<union> set (included_paths resolve lines)"
  by (simp add: included_paths_def)

lemma file_includes_readable: "file_includes resolve fs p q \<Longrightarrow> \<exists>lines. map_of fs p = Some (Readable lines)"
  by (auto simp: file_includes_def split: option.splits file_content.splits)

text \<open>What a call adds to the visited set: every file named by the call that exists is
  visited; each newly visited file can be read, the files it includes are visited, and it
  is reached from a file named by the call.\<close>

definition explored ::
  "(string \<Rightarrow> 'p) \<Rightarrow> ('p \<times> file_content) list \<Rightarrow> 'p set \<Rightarrow> 'p set \<Rightarrow> 'p set \<Rightarrow> bool" where
  "explored resolve fs roots seen s' =
     ((\<forall>r \<in> roots. map_of fs r \<noteq> None \<longrightarrow> r \<in> s') \<and>
      (\<forall>p \<in> s' - seen.
         (\<exists>lines. map_of fs p = Some (Readable lines)) \<and>
         (\<forall>q. file_includes resolve fs p q \<longrightarrow> q \<in> s') \<and>
         (\<exists>r \<in> roots. map_of fs r \<noteq> None \<and>
            (r, p) \<in> {(a, b). file_includes resolve fs a b}\<^sup>*)))"

lemma explored_root:
  "explored resolve fs roots seen s' \<Longrightarrow> r \<in> roots \<Longrightarrow> map_of fs r \<noteq> None \<Longrightarrow> r \<in> s'"
  unfolding explored_def by blast

lemma explored_readable:
  "explored resolve fs roots seen s' \<Longrightarrow> p \<in> s' \<Longrightarrow> p \<notin> seen \<Longrightarrow>
   \<exists>lines. map_of fs p = Some (Readable lines)"
  unfolding explored_def by blast

lemma explored_closed:
  "explored resolve fs roots seen s' \<Longrightarrow> p \<in> s' \<Longrightarrow> p \<notin> seen \<Longrightarrow>
   file_includes resolve fs p q \<Longrightarrow> q \<in> s'"
  unfolding explored_def by blast

lemma explored_from:
  "explored resolve fs roots seen s' \<Longrightarrow> p \<in> s' \<Longrightarrow> p \<notin> seen \<Longrightarrow>
   \<exists>r \<in> roots. map_of fs r \<noteq> None \<and> (r, p) \<in> {(a, b). file_includes resolve fs a b}\<^sup>*"
  unfolding explored_def by blast

lemma exploredI:
  assumes "\<And>r. r \<in> roots \<Longrightarrow> map_of fs r \<noteq> None \<Longrightarrow> r \<in> s'"
    and "\<And>p. p \<in> s' \<Longrightarrow> p \<notin> seen \<Longrightarrow> \<exists>lines. map_of fs p = Some (Readable lines)"
    and "\<And>p q. p \<in> s' \<Longrightarrow> p \<notin> seen \<Longrightarrow> file_includes resolve fs p q \<Longrightarrow> q \<in> s'"
    and "\<And>p. p \<in> s' \<Longrightarrow> p \<notin> seen \<Longrightarrow>
      \<exists>r \<in> roots. map_of fs r \<noteq> None \<and> (r, p) \<in> {(a, b). file_includes resolve fs a b}\<^sup>*"
  shows "explored resolve fs roots seen s'"
  unfolding explored_def using assms by blast

lemma explored_empty: "explored resolve fs {} seen seen"
  by (simp add: explored_def)

lemma explored_join:
  assumes a: "explored resolve fs A seen s1" and b: "explored resolve fs B s1 s2"
    and m: "seen \<subseteq> s1" "s1 \<subseteq> s2"
  shows "explored resolve fs (A \<union> B) seen s2"
proof (rule exploredI)
  fix r assume r: "r \<in> A \<union> B" "map_of fs r \<noteq> None"
  show "r \<in> s2"
  proof (cases "r \<in> A")
    case True
    from explored_root[OF a True r(2)] m show ?thesis by blast
  next
    case False
    with r have "r \<in> B" by simp
    from explored_root[OF b this r(2)] show ?thesis .
  qed
next
  fix p assume p: "p \<in> s2" "p \<notin> seen"
  show "\<exists>lines. map_of fs p = Some (Readable lines)"
  proof (cases "p \<in> s1")
    case True
    from explored_readable[OF a True p(2)] show ?thesis .
  next
    case False
    from explored_readable[OF b p(1) False] show ?thesis .
  qed
  show "\<exists>r \<in> A \<union> B. map_of fs r \<noteq> None \<and>
      (r, p) \<in> {(a, b). file_includes resolve fs a b}\<^sup>*"
  proof (cases "p \<in> s1")
    case True
    from explored_from[OF a True p(2)] show ?thesis by blast
  next
    case False
    from explored_from[OF b p(1) False] show ?thesis by blast
  qed
next
  fix p q assume p: "p \<in> s2" "p \<notin> seen" and i: "file_includes resolve fs p q"
  show "q \<in> s2"
  proof (cases "p \<in> s1")
    case True
    from explored_closed[OF a True p(2) i] m show ?thesis by blast
  next
    case False
    from explored_closed[OF b p(1) False i] show ?thesis .
  qed
qed

lemma explored_file:
  assumes l: "map_of fs path = Some (Readable lines)" and n: "path \<notin> seen"
    and e: "explored resolve fs (set (included_paths resolve lines)) (insert path seen) s'"
    and m: "insert path seen \<subseteq> s'"
  shows "explored resolve fs {path} seen s'"
proof (rule exploredI)
  fix r assume "r \<in> {path}"
  with m show "r \<in> s'" by auto
next
  fix p assume p: "p \<in> s'" "p \<notin> seen"
  show "\<exists>lines. map_of fs p = Some (Readable lines)"
  proof (cases "p = path")
    case True
    with l show ?thesis by simp
  next
    case False
    with p(2) have "p \<notin> insert path seen" by simp
    from explored_readable[OF e p(1) this] show ?thesis .
  qed
  let ?E = "{(a, b). file_includes resolve fs a b}"
  show "\<exists>r \<in> {path}. map_of fs r \<noteq> None \<and> (r, p) \<in> ?E\<^sup>*"
  proof (cases "p = path")
    case True
    with l show ?thesis by simp
  next
    case False
    with p(2) have "p \<notin> insert path seen" by simp
    from explored_from[OF e p(1) this]
    obtain r where r: "r \<in> set (included_paths resolve lines)" "map_of fs r \<noteq> None"
      "(r, p) \<in> ?E\<^sup>*"
      by blast
    from r(1,2) l have "(path, r) \<in> ?E" by (simp add: file_includes_def)
    then have "(path, p) \<in> ?E\<^sup>*" using r(3) by (rule converse_rtrancl_into_rtrancl)
    with l show ?thesis by simp
  qed
next
  fix p q assume p: "p \<in> s'" "p \<notin> seen" and i: "file_includes resolve fs p q"
  show "q \<in> s'"
  proof (cases "p = path")
    case True
    with i l have "q \<in> set (included_paths resolve lines)" "map_of fs q \<noteq> None"
      by (simp_all add: file_includes_def)
    then show ?thesis by (rule explored_root[OF e])
  next
    case False
    with p(2) have "p \<notin> insert path seen" by simp
    from explored_closed[OF e p(1) this i] show ?thesis .
  qed
qed

lemma loader_explores:
  "\<forall>es s'. read_latex_recursive resolve fs filename seen = Inr (es, s') \<longrightarrow>
     seen_of seen \<subseteq> s' \<and> explored resolve fs {resolve filename} (seen_of seen) s'"
  "\<forall>es s'. read_lines resolve fs path i lines seen1 = Inr (es, s') \<longrightarrow>
     seen1 \<subseteq> s' \<and> explored resolve fs (set (included_paths resolve lines)) seen1 s'"
  "\<forall>es s'. read_includes resolve fs ms seen2 = Inr (es, s') \<longrightarrow>
     seen2 \<subseteq> s' \<and> explored resolve fs ((\<lambda>m. resolve (with_tex m)) ` set ms) seen2 s'"
proof (induction resolve fs filename seen and resolve fs path i lines seen1 and resolve fs ms seen2
    rule: read_latex_recursive_read_lines_read_includes.induct)
  case (1 resolve fs filename seen)
  show ?case
  proof (intro allI impI)
    fix es s'
    assume r: "read_latex_recursive resolve fs filename seen = Inr (es, s')"
    let ?path = "resolve filename"
    show "seen_of seen \<subseteq> s' \<and> explored resolve fs {?path} (seen_of seen) s'"
    proof (cases "?path \<in> seen_of seen \<or> map_of fs ?path = None")
      case True
      with r have "s' = seen_of seen" by (auto simp: Let_def)
      with True show ?thesis by (auto simp: explored_def)
    next
      case False
      with r obtain lines where l: "map_of fs ?path = Some (Readable lines)"
        and rl: "read_lines resolve fs ?path 1 lines (insert ?path (seen_of seen)) = Inr (es, s')"
        by (auto simp: Let_def split: option.splits file_content.splits)
      from "1.IH"[OF refl refl False l refl] rl
      have sub: "insert ?path (seen_of seen) \<subseteq> s'"
        and e: "explored resolve fs (set (included_paths resolve lines))
                  (insert ?path (seen_of seen)) s'"
        by auto
      from False have "?path \<notin> seen_of seen" by simp
      with l have "explored resolve fs {?path} (seen_of seen) s'"
        using e sub by (rule explored_file)
      with sub show ?thesis by auto
    qed
  qed
next
  case (2 resolve fs path i seen)
  show ?case by (simp add: included_paths_def explored_empty)
next
  case (3 resolve fs path i line lines seen)
  show ?case
  proof (intro allI impI)
    fix es s'
    assume r: "read_lines resolve fs path i (line # lines) seen = Inr (es, s')"
    from r obtain inc seen1 ents where
      a: "read_includes resolve fs (include_findall line) seen = Inr (inc, seen1)" and
      b: "read_lines resolve fs path (Suc i) lines seen1 = Inr (ents, s')"
      by (auto split: sum.splits prod.splits)
    from "3.IH"(1) a have s1: "seen \<subseteq> seen1"
      and e1: "explored resolve fs ((\<lambda>m. resolve (with_tex m)) ` set (include_findall line))
                 seen seen1"
      by auto
    from "3.IH"(2)[OF a refl] b have s2: "seen1 \<subseteq> s'"
      and e2: "explored resolve fs (set (included_paths resolve lines)) seen1 s'"
      by auto
    from explored_join[OF e1 e2 s1 s2] s1 s2
    show "seen \<subseteq> s' \<and> explored resolve fs (set (included_paths resolve (line # lines))) seen s'"
      by (simp add: included_paths_Cons)
  qed
next
  case (4 resolve fs seen)
  show ?case by (simp add: explored_empty)
next
  case (5 resolve fs m ms seen)
  show ?case
  proof (intro allI impI)
    fix es s'
    assume r: "read_includes resolve fs (m # ms) seen = Inr (es, s')"
    from r obtain ents seen1 rest where
      a: "read_latex_recursive resolve fs (with_tex m) (Some seen) = Inr (ents, seen1)" and
      b: "read_includes resolve fs ms seen1 = Inr (rest, s')"
      by (auto split: sum.splits prod.splits)
    from "5.IH"(1) a have s1: "seen \<subseteq> seen1"
      and e1: "explored resolve fs {resolve (with_tex m)} seen seen1"
      by (auto simp: seen_of_def)
    from "5.IH"(2)[OF a refl] b have s2: "seen1 \<subseteq> s'"
      and e2: "explored resolve fs ((\<lambda>m. resolve (with_tex m)) ` set ms) seen1 s'"
      by auto
    from explored_join[OF e1 e2 s1 s2] s1 s2
    show "seen \<subseteq> s' \<and>
        explored resolve fs ((\<lambda>m. resolve (with_tex m)) ` set (m # ms)) seen s'"
      by simp
  qed
qed

text \<open>An exception comes from a file that cannot be read and is reached from a file
  named by the call.\<close>

definition blocked ::
  "(string \<Rightarrow> 'p) \<Rightarrow> ('p \<times> file_content) list \<Rightarrow> 'p set \<Rightarrow> bool" where
  "blocked resolve fs roots =
     (\<exists>r \<in> roots. \<exists>p. map_of fs r \<noteq> None \<and>
        (r, p) \<in> {(a, b). file_includes resolve fs a b}\<^sup>* \<and> map_of fs p = Some Unreadable)"

lemma blocked_mono: "blocked resolve fs A \<Longrightarrow> A \<subseteq> B \<Longrightarrow> blocked resolve fs B"
  unfolding blocked_def by blast

lemma blocked_file:
  assumes l: "map_of fs path = Some (Readable lines)"
    and b: "blocked resolve fs (set (included_paths resolve lines))"
  shows "blocked resolve fs {path}"
proof -
  let ?E = "{(a, b). file_includes resolve fs a b}"
  from b obtain r p where r: "r \<in> set (included_paths resolve lines)" "map_of fs r \<noteq> None"
    "(r, p) \<in> ?E\<^sup>*" "map_of fs p = Some Unreadable"
    unfolding blocked_def by blast
  from r(1,2) l have "(path, r) \<in> ?E" by (simp add: file_includes_def)
  then have "(path, p) \<in> ?E\<^sup>*" using r(3) by (rule converse_rtrancl_into_rtrancl)
  with l r(4) show ?thesis unfolding blocked_def by auto
qed

lemma loader_error_blocked:
  "\<forall>e. read_latex_recursive resolve fs filename seen = Inl e \<longrightarrow>
     blocked resolve fs {resolve filename}"
  "\<forall>e. read_lines resolve fs path i lines seen1 = Inl e \<longrightarrow>
     blocked resolve fs (set (included_paths resolve lines))"
  "\<forall>e. read_includes resolve fs ms seen2 = Inl e \<longrightarrow>
     blocked resolve fs ((\<lambda>m. resolve (with_tex m)) ` set ms)"
proof (induction resolve fs filename seen and resolve fs path i lines seen1 and resolve fs ms seen2
    rule: read_latex_recursive_read_lines_read_includes.induct)
  case (1 resolve fs filename seen)
  show ?case
  proof (intro allI impI)
    fix e
    assume r: "read_latex_recursive resolve fs filename seen = Inl e"
    let ?path = "resolve filename"
    from r have f: "\<not> (?path \<in> seen_of seen \<or> map_of fs ?path = None)"
      by (auto simp: Let_def split: if_splits)
    then obtain c where c: "map_of fs ?path = Some c" by auto
    show "blocked resolve fs {?path}"
    proof (cases c)
      case Unreadable
      with c show ?thesis unfolding blocked_def by auto
    next
      case (Readable lines)
      with c have l: "map_of fs ?path = Some (Readable lines)" by simp
      with r f have "read_lines resolve fs ?path 1 lines (insert ?path (seen_of seen)) = Inl e"
        by (simp add: Let_def)
      with "1.IH"[OF refl refl f l refl]
      have "blocked resolve fs (set (included_paths resolve lines))" by blast
      with l show ?thesis by (rule blocked_file)
    qed
  qed
next
  case (2 resolve fs path i seen)
  show ?case by simp
next
  case (3 resolve fs path i line lines seen)
  show ?case
  proof (intro allI impI)
    fix e
    assume r: "read_lines resolve fs path i (line # lines) seen = Inl e"
    show "blocked resolve fs (set (included_paths resolve (line # lines)))"
    proof (cases "read_includes resolve fs (include_findall line) seen")
      case (Inl e')
      with "3.IH"(1)
      have "blocked resolve fs ((\<lambda>m. resolve (with_tex m)) ` set (include_findall line))"
        by blast
      then show ?thesis
        by (rule blocked_mono) (auto simp: included_paths_Cons)
    next
      case (Inr b)
      obtain inc seen1 where b: "b = (inc, seen1)" by (cases b)
      from r Inr b have "read_lines resolve fs path (Suc i) lines seen1 = Inl e"
        by (auto split: sum.splits prod.splits)
      with "3.IH"(2)[OF Inr b[symmetric]]
      have "blocked resolve fs (set (included_paths resolve lines))" by blast
      then show ?thesis
        by (rule blocked_mono) (auto simp: included_paths_Cons)
    qed
  qed
next
  case (4 resolve fs seen)
  show ?case by simp
next
  case (5 resolve fs m ms seen)
  show ?case
  proof (intro allI impI)
    fix e
    assume r: "read_includes resolve fs (m # ms) seen = Inl e"
    show "blocked resolve fs ((\<lambda>m. resolve (with_tex m)) ` set (m # ms))"
    proof (cases "read_latex_recursive resolve fs (with_tex m) (Some seen)")
      case (Inl e')
      with "5.IH"(1) have "blocked resolve fs {resolve (with_tex m)}" by blast
      then show ?thesis by (rule blocked_mono) auto
    next
      case (Inr b)
      obtain ents seen1 where b: "b = (ents, seen1)" by (cases b)
      from r Inr b have "read_includes resolve fs ms seen1 = Inl e"
        by (auto split: sum.splits prod.splits)
      with "5.IH"(2)[OF Inr b[symmetric]]
      have "blocked resolve fs ((\<lambda>m. resolve (with_tex m)) ` set ms)" by blast
      then show ?thesis by (rule blocked_mono) auto
    qed
  qed
qed

text \<open>A load from the top: the visited files are the reachable ones, and the load fails
  exactly when a reachable file cannot be read.\<close>

lemma loader_visits_reachable:
  assumes r: "read_latex_recursive resolve fs filename None = Inr (es, s')"
  shows "s' = {p. reachable resolve fs filename p}"
proof -
  let ?E = "{(a, b). file_includes resolve fs a b}"
  from loader_explores(1)[of resolve fs filename None] r
  have e: "explored resolve fs {resolve filename} {} s'"
    by (simp add: seen_of_def)
  show ?thesis
  proof (intro set_eqI iffI)
    fix p assume "p \<in> s'"
    with explored_from[OF e, of p] show "p \<in> {p. reachable resolve fs filename p}"
      by (simp add: reachable_def)
  next
    fix p assume "p \<in> {p. reachable resolve fs filename p}"
    then have x: "map_of fs (resolve filename) \<noteq> None" and c: "(resolve filename, p) \<in> ?E\<^sup>*"
      by (simp_all add: reachable_def)
    from c show "p \<in> s'"
    proof (induction rule: rtrancl_induct)
      case base
      from explored_root[OF e _ x] show ?case by simp
    next
      case (step y z)
      from step(2) have "file_includes resolve fs y z" by simp
      with explored_closed[OF e step(3)] show ?case by simp
    qed
  qed
qed

lemma loader_visited_readable:
  assumes r: "read_latex_recursive resolve fs filename None = Inr (es, s')"
    and p: "reachable resolve fs filename p"
  shows "\<exists>lines. map_of fs p = Some (Readable lines)"
proof -
  from loader_explores(1)[of resolve fs filename None] r
  have e: "explored resolve fs {resolve filename} {} s'"
    by (simp add: seen_of_def)
  from p loader_visits_reachable[OF r] have "p \<in> s'" by simp
  from explored_readable[OF e this] show ?thesis by simp
qed

lemma loader_fails_iff:
  "(\<exists>e. read_latex_recursive resolve fs filename None = Inl e) \<longleftrightarrow>
     (\<exists>p. reachable resolve fs filename p \<and> map_of fs p = Some Unreadable)"
proof
  assume "\<exists>e. read_latex_recursive resolve fs filename None = Inl e"
  with loader_error_blocked(1)[of resolve fs filename None]
  have "blocked resolve fs {resolve filename}" by blast
  then show "\<exists>p. reachable resolve fs filename p \<and> map_of fs p = Some Unreadable"
    by (auto simp: blocked_def reachable_def)
next
  assume "\<exists>p. reachable resolve fs filename p \<and> map_of fs p = Some Unreadable"
  then obtain p where p: "reachable resolve fs filename p" "map_of fs p = Some Unreadable"
    by blast
  show "\<exists>e. read_latex_recursive resolve fs filename None = Inl e"
  proof (cases "read_latex_recursive resolve fs filename None")
    case (Inl e)
    then show ?thesis by blast
  next
    case (Inr b)
    obtain es s' where "b = (es, s')" by (cases b)
    with Inr have "read_latex_recursive resolve fs filename None = Inr (es, s')" by simp
    from loader_visited_readable[OF this p(1)] p(2) show ?thesis by simp
  qed
qed

text \<open>
  Claim C6, as stated, fails. The project has one file \<open>main.tex\<close> and a directory \<open>sub\<close>;
  \<open>main.tex\<close> and \<open>sub/../main.tex\<close> name the same file, and \<open>pathlib\<close> keeps them apart
  as paths (no \<open>..\<close> is resolved when paths are joined or compared). The file includes
  itself under the second spelling, and its record sequence is loaded twice.
\<close>

definition aliased_tree :: "(string \<times> file_content) list" where
  "aliased_tree =
     [(''main.tex'', Readable [backslash # ''input{sub/../main}'' @ [newline], ''x'' @ [newline]]),
      (''sub/../main.tex'',
         Readable [backslash # ''input{sub/../main}'' @ [newline], ''x'' @ [newline]])]"

theorem aliased_path_counterexample:
  "map_of aliased_tree ''sub/../main.tex'' = map_of aliased_tree ''main.tex'' \<and>
   read_latex_recursive (\<lambda>f. f) aliased_tree ''main.tex'' None =
     Inr ([(''main.tex'', 1, backslash # ''input{sub/../main}''),
           (''sub/../main.tex'', 1, backslash # ''input{sub/../main}''),
           (''sub/../main.tex'', 2, ''x''),
           (''main.tex'', 2, ''x'')],
          {''main.tex'', ''sub/../main.tex''})"
  by code_simp

text \<open>
  Claim C6, amended. The loader is a total function: it returns on every document tree,
  with the records or with the exception of a file that cannot be read. Files are told
  apart by their paths as the directives spell them. When the loader returns records, the
  paths it visited are exactly the paths reachable from the entry file through the
  directives of readable files, and for every path the records of that path are the
  file's own record sequence, once, when the path is reachable, and none otherwise. A
  file that includes itself, directly or through other files, under one spelling of its
  path is therefore read once. When the loader raises, a reachable file cannot be read.
\<close>

theorem loader_cycle_safety:
  "(case read_latex_recursive resolve fs filename None of
      Inl e \<Rightarrow> \<exists>p. reachable resolve fs filename p \<and> map_of fs p = Some Unreadable
    | Inr (entries, visited) \<Rightarrow>
        visited = {p. reachable resolve fs filename p} \<and>
        (\<forall>p. records_of p entries =
           (if reachable resolve fs filename p then file_records fs p else [])))"
proof (cases "read_latex_recursive resolve fs filename None")
  case (Inl e)
  then have "\<exists>e. read_latex_recursive resolve fs filename None = Inl e" by blast
  then have "\<exists>p. reachable resolve fs filename p \<and> map_of fs p = Some Unreadable"
    by (simp only: loader_fails_iff)
  with Inl show ?thesis by simp
next
  case (Inr b)
  obtain entries visited where b: "b = (entries, visited)" by (cases b)
  with Inr have r: "read_latex_recursive resolve fs filename None = Inr (entries, visited)"
    by simp
  have v: "visited = {p. reachable resolve fs filename p}"
    using r by (rule loader_visits_reachable)
  from loader_invariant(1)[of resolve fs filename None] r
  have "\<forall>p. records_of p entries = (if p \<in> visited then file_records fs p else [])"
    by (auto simp: seen_of_def)
  then have "\<forall>p. records_of p entries =
      (if reachable resolve fs filename p then file_records fs p else [])"
    unfolding v by simp
  with v r show ?thesis by simp
qed

text \<open>The entry file and a second file include each other; the second also includes
  itself and a file that does not exist. A further file is included by no one.\<close>

definition cyclic_tree :: "(string \<times> file_content) list" where
  "cyclic_tree =
     [(''main.tex'', Readable [backslash # ''input{b}'' @ [newline], ''x'' @ [newline]]),
      (''b.tex'', Readable [backslash # ''include{main}'' @ [newline],
                            backslash # ''input{b} '' @ backslash # ''input{c}'' @ [newline]]),
      (''d.tex'', Readable [''y'' @ [newline]])]"

definition cyclic_records :: "string entry list" where
  "cyclic_records =
     [(''main.tex'', 1, backslash # ''input{b}''),
      (''b.tex'', 1, backslash # ''include{main}''),
      (''b.tex'', 2, backslash # ''input{b} '' @ backslash # ''input{c}''),
      (''main.tex'', 2, ''x'')]"

theorem loader_cycle_safety_witness:
  "read_latex_recursive (\<lambda>f. f) cyclic_tree ''main.tex'' None =
     Inr (cyclic_records, {''main.tex'', ''b.tex''}) \<and>
   {p. reachable (\<lambda>f. f) cyclic_tree ''main.tex'' p} = {''main.tex'', ''b.tex''} \<and>
   records_of ''main.tex'' cyclic_records = file_records cyclic_tree ''main.tex'' \<and>
   records_of ''b.tex'' cyclic_records = file_records cyclic_tree ''b.tex'' \<and>
   file_records cyclic_tree ''b.tex'' =
     [(''b.tex'', 1, backslash # ''include{main}''),
      (''b.tex'', 2, backslash # ''input{b} '' @ backslash # ''input{c}'')] \<and>
   records_of ''c.tex'' cyclic_records = [] \<and>
   records_of ''d.tex'' cyclic_records = []"
proof -
  have ev: "read_latex_recursive (\<lambda>f. f) cyclic_tree ''main.tex'' None =
     Inr (cyclic_records, {''main.tex'', ''b.tex''})"
    by code_simp
  have "case read_latex_recursive (\<lambda>f. f) cyclic_tree ''main.tex'' None of
      Inl e \<Rightarrow> \<exists>p. reachable (\<lambda>f. f) cyclic_tree ''main.tex'' p \<and>
                   map_of cyclic_tree p = Some Unreadable
    | Inr (entries, visited) \<Rightarrow>
        visited = {p. reachable (\<lambda>f. f) cyclic_tree ''main.tex'' p} \<and>
        (\<forall>p. records_of p entries =
           (if reachable (\<lambda>f. f) cyclic_tree ''main.tex'' p
            then file_records cyclic_tree p else []))"
    by (rule loader_cycle_safety)
  then have v: "{''main.tex'', ''b.tex''} = {p. reachable (\<lambda>f. f) cyclic_tree ''main.tex'' p}"
    and r: "\<And>p. records_of p cyclic_records =
      (if reachable (\<lambda>f. f) cyclic_tree ''main.tex'' p then file_records cyclic_tree p else [])"
    unfolding ev by simp_all
  have m: "reachable (\<lambda>f. f) cyclic_tree ''main.tex'' p \<longleftrightarrow> p \<in> {''main.tex'', ''b.tex''}"
    for p
    unfolding v by simp
  have "records_of ''main.tex'' cyclic_records = file_records cyclic_tree ''main.tex''"
    by (subst r) (simp add: m)
  moreover have "records_of ''b.tex'' cyclic_records = file_records cyclic_tree ''b.tex''"
    by (subst r) (simp add: m)
  moreover have "records_of ''c.tex'' cyclic_records = []"
    by (subst r) (simp add: m)
  moreover have "records_of ''d.tex'' cyclic_records = []"
    by (subst r) (simp add: m)
  moreover have "file_records cyclic_tree ''b.tex'' =
     [(''b.tex'', 1, backslash # ''include{main}''),
      (''b.tex'', 2, backslash # ''input{b} '' @ backslash # ''input{c}'')]"
    by code_simp
  ultimately show ?thesis using ev v by simp
qed











section \<open>Properties of the scan\<close>

subsection \<open>Dictionaries\<close>

lemma dict_set_keys:
  "map fst (dict_set d k v) = (if k \<in> fst ` set d then map fst d else map fst d @ [k])"
  by (induction d) (force simp: image_iff)+

lemma dict_set_key_set: "fst ` set (dict_set d k v) = insert k (fst ` set d)"
proof -
  have "set (map fst (dict_set d k v)) = insert k (set (map fst d))"
    unfolding dict_set_keys by auto
  then show ?thesis by simp
qed

subsection \<open>Dictionaries of lists\<close>

lemma dict_get_Nil [simp]: "dict_get [] k = []"
  by (simp add: dict_get_def)

lemma dict_get_append: 
  "dict_get (dict_append d k v) k' = (if k' = k then dict_get d k @ [v] else dict_get d k')"
  by (induction d) (auto simp: dict_get_def)

lemma dict_append_keys:
  "map fst (dict_append d k v) = (if k \<in> fst ` set d then map fst d else map fst d @ [k])"
  by (induction d) (force simp: image_iff)+

lemma dict_append_distinct:
  "distinct (map fst d) \<Longrightarrow> distinct (map fst (dict_append d k v))"
  by (simp add: dict_append_keys)

lemma dict_append_key_set: "fst ` set (dict_append d k v) = insert k (fst ` set d)"
proof -
  have "set (map fst (dict_append d k v)) = insert k (set (map fst d))"
    unfolding dict_append_keys by auto
  then show ?thesis by simp
qed

lemma dict_add_keys:
  "map fst (dict_add d k v) = (if k \<in> fst ` set d then map fst d else map fst d @ [k])"
  by (induction d) (force simp: image_iff)+

lemma dict_add_key_set: "fst ` set (dict_add d k v) = insert k (fst ` set d)"
proof -
  have "set (map fst (dict_add d k v)) = insert k (set (map fst d))"
    unfolding dict_add_keys by auto
  then show ?thesis by simp
qed

lemma dict_get_add:
  "dict_get (dict_add d k v) k' = (if k' = k then set_add (dict_get d k) v else dict_get d k')"
  by (induction d) (auto simp: dict_get_def set_add_def)

text \<open>A key of a dictionary filled by \<open>dict_append\<close> has at least one value.\<close>

definition filled :: "('k \<times> 'v list) list \<Rightarrow> bool" where
  "filled d = ([] \<notin> snd ` set d)"

lemma filled_append: "filled d \<Longrightarrow> filled (dict_append d k v)"
  by (induction d) (force simp: filled_def image_iff split: if_splits)+

lemma filled_key: "filled d \<Longrightarrow> k \<in> fst ` set d \<longleftrightarrow> dict_get d k \<noteq> []"
proof (induction d)
  case Nil
  show ?case by simp
next
  case (Cons a d)
  obtain k' vs where a: "a = (k', vs)" by (cases a)
  from Cons.prems have f: "filled d" and v: "vs \<noteq> []"
    by (auto simp: filled_def a)
  show ?case using Cons.IH[OF f] v
    by (auto simp: a dict_get_def)
qed

subsection \<open>Usage of defined acronyms\<close>

lemma usage_step_fst:
  "dict_get (fst (usage_step key full short used (path, line_no, line))) k =
     dict_get (fst used) k @
     (if k = key \<and> plural_search full line then [(path, line_no, line)] else [])"
  by (simp add: usage_step_def dict_get_append)

lemma usage_step_snd:
  "dict_get (snd (usage_step key full short used (path, line_no, line))) k =
     dict_get (snd used) k @
     (if k = key \<and> plural_search short line then [(path, line_no, line)] else [])"
  by (simp add: usage_step_def dict_get_append)

lemma usage_step_full:
  "dict_get (fst (foldl (usage_step key full short) used content)) k =
     dict_get (fst used) k @
     (if k = key then filter (\<lambda>(path, line_no, line). plural_search full line) content else [])"
proof (induction content arbitrary: used)
  case Nil
  show ?case by simp
next
  case (Cons e content)
  obtain path line_no line where e: "e = (path, line_no, line)" by (cases e)
  show ?case
    by (simp add: Cons.IH e usage_step_fst usage_step_snd)
qed

lemma usage_step_short:
  "dict_get (snd (foldl (usage_step key full short) used content)) k =
     dict_get (snd used) k @
     (if k = key then filter (\<lambda>(path, line_no, line). plural_search short line) content else [])"
proof (induction content arbitrary: used)
  case Nil
  show ?case by simp
next
  case (Cons e content)
  obtain path line_no line where e: "e = (path, line_no, line)" by (cases e)
  show ?case
    by (simp add: Cons.IH e usage_step_fst usage_step_snd)
qed

definition usage_loop ::
  "'p entry list \<Rightarrow> (string \<times> 'p entry list) list \<times> (string \<times> 'p entry list) list \<Rightarrow>
   string \<times> 'p acronym_def \<Rightarrow> (string \<times> 'p entry list) list \<times> (string \<times> 'p entry list) list" where
  "usage_loop content used item =
     foldl (usage_step (fst item) (def_full (snd item)) (def_short (snd item))) used content"

lemma scan_usage_loop: "scan_usage ds content = foldl (usage_loop content) ([], []) ds"
proof -
  have "(\<lambda>used (key, data). foldl (usage_step key (def_full data) (def_short data)) used content)
      = usage_loop content"
    by (intro ext) (simp add: usage_loop_def split_def)
  then show ?thesis by (simp add: scan_usage_def)
qed

lemma usage_loop_full:
  "distinct (map fst ds) \<Longrightarrow>
   dict_get (fst (foldl (usage_loop content) used ds)) k =
     dict_get (fst used) k @
     (case map_of ds k of None \<Rightarrow> []
      | Some data \<Rightarrow> filter (\<lambda>(path, line_no, line). plural_search (def_full data) line) content)"
proof (induction ds arbitrary: used)
  case Nil
  show ?case by simp
next
  case (Cons item ds)
  obtain key data where i: "item = (key, data)" by (cases item)
  from Cons.prems have d: "distinct (map fst ds)" and n: "key \<notin> fst ` set ds"
    by (auto simp: i)
  from n have m: "map_of ds key = None"
    by (simp add: map_of_eq_None_iff)
  have "foldl (usage_loop content) used (item # ds) =
      foldl (usage_loop content) (usage_loop content used item) ds"
    by simp
  then show ?case
    by (simp only: Cons.IH[OF d]) (simp add: i usage_loop_def usage_step_full m)
qed

lemma usage_loop_short:
  "distinct (map fst ds) \<Longrightarrow>
   dict_get (snd (foldl (usage_loop content) used ds)) k =
     dict_get (snd used) k @
     (case map_of ds k of None \<Rightarrow> []
      | Some data \<Rightarrow> filter (\<lambda>(path, line_no, line). plural_search (def_short data) line) content)"
proof (induction ds arbitrary: used)
  case Nil
  show ?case by simp
next
  case (Cons item ds)
  obtain key data where i: "item = (key, data)" by (cases item)
  from Cons.prems have d: "distinct (map fst ds)" and n: "key \<notin> fst ` set ds"
    by (auto simp: i)
  from n have m: "map_of ds key = None"
    by (simp add: map_of_eq_None_iff)
  have "foldl (usage_loop content) used (item # ds) =
      foldl (usage_loop content) (usage_loop content used item) ds"
    by simp
  then show ?case
    by (simp only: Cons.IH[OF d]) (simp add: i usage_loop_def usage_step_short m)
qed

text \<open>The pattern at a position of the line, and "found anywhere in the line".\<close>

definition char_before :: "string \<Rightarrow> nat \<Rightarrow> char option" where
  "char_before line i = (if i = 0 then None else Some (line ! (i - 1)))"

definition pattern_at :: "string \<Rightarrow> string \<Rightarrow> nat \<Rightarrow> bool" where
  "pattern_at lit line i = plural_match_at lit (char_before line i) (drop i line)"

definition pattern_found :: "string \<Rightarrow> string \<Rightarrow> bool" where
  "pattern_found lit line = (\<exists>i\<le>length line. pattern_at lit line i)"

lemma plural_search_from_iff:
  "plural_search_from lit prev s \<longleftrightarrow>
     (\<exists>i\<le>length s. plural_match_at lit (if i = 0 then prev else Some (s ! (i - 1))) (drop i s))"
proof (induction s arbitrary: prev)
  case Nil
  show ?case by simp
next
  case (Cons c cs)
  have "(\<exists>i\<le>length (c # cs).
          plural_match_at lit (if i = 0 then prev else Some ((c # cs) ! (i - 1))) (drop i (c # cs)))
      \<longleftrightarrow> plural_match_at lit prev (c # cs) \<or>
          (\<exists>j\<le>length cs.
             plural_match_at lit (if j = 0 then Some c else Some (cs ! (j - 1))) (drop j cs))"
    (is "?L \<longleftrightarrow> ?A \<or> ?B")
  proof
    assume ?L
    then obtain i where i: "i \<le> length (c # cs)"
      "plural_match_at lit (if i = 0 then prev else Some ((c # cs) ! (i - 1))) (drop i (c # cs))"
      by blast
    show "?A \<or> ?B"
    proof (cases i)
      case 0
      with i show ?thesis by simp
    next
      case (Suc j)
      with i have "j \<le> length cs"
        "plural_match_at lit (if j = 0 then Some c else Some (cs ! (j - 1))) (drop j cs)"
        by (auto simp: nth_Cons split: nat.splits if_splits)
      then show ?thesis by blast
    qed
  next
    assume "?A \<or> ?B"
    then show ?L
    proof
      assume ?A
      then show ?L by (intro exI[of _ 0]) simp
    next
      assume ?B
      then obtain j where j: "j \<le> length cs"
        "plural_match_at lit (if j = 0 then Some c else Some (cs ! (j - 1))) (drop j cs)"
        by blast
      then have "plural_match_at lit
          (if Suc j = 0 then prev else Some ((c # cs) ! (Suc j - 1))) (drop (Suc j) (c # cs))"
        by (auto simp: nth_Cons split: nat.splits if_splits)
      with j(1) show ?L by (intro exI[of _ "Suc j"]) simp
    qed
  qed
  then show ?case by (simp add: Cons.IH)
qed

lemma plural_search_found: "plural_search lit line = pattern_found lit line"
  by (simp add: plural_search_def pattern_found_def pattern_at_def char_before_def
      plural_search_from_iff)

text \<open>
  Claim C5, as stated, fails: the pattern of the short form matches twice in the line
  \<open>VAE and VAEs\<close>, at the positions 0 and 8, and the line is recorded once.
\<close>

definition usage_defs :: "(string \<times> nat acronym_def) list" where
  "usage_defs =
     [(''vae'', \<lparr>def_short = ''VAE'', def_full = ''Variational Autoencoder'',
                def_file = 0, def_line = 1\<rparr>)]"

theorem usage_all_matches_counterexample:
  "filter (pattern_at ''VAE'' ''VAE and VAEs'') [0..<Suc (length ''VAE and VAEs'')] = [0, 8] \<and>
   dict_get (used_short (scan_acronyms as_inserted
      [(0 :: nat, 1, begin_document), (0, 2, ''VAE and VAEs'')] usage_defs)) ''vae'' =
     [(0, 2, ''VAE and VAEs'')]"
  by code_simp

text \<open>
  Claim C5, amended. For every definition, the body records kept under its key in the
  usage-by-long-form collection are exactly the body records in whose text the pattern of
  the long form is found at some position, each once and in document order, however many
  times the pattern matches inside the line; the same holds for the short form. The
  pattern is the form between word boundaries, with an optional \<open>s\<close> after it, and
  letters are compared up to case, accented letters too.
\<close>

theorem usage_recorded_per_line:
  assumes "distinct (map fst acronym_defs)" and "(key, data) \<in> set acronym_defs"
  shows "dict_get (used_full (scan_acronyms order entries acronym_defs)) key =
           filter (\<lambda>(path, line_no, line). pattern_found (def_full data) line)
             (content_from False entries) \<and>
         dict_get (used_short (scan_acronyms order entries acronym_defs)) key =
           filter (\<lambda>(path, line_no, line). pattern_found (def_short data) line)
             (content_from False entries)"
proof -
  from assms have m: "map_of acronym_defs key = Some data"
    by simp
  have e: "plural_search = pattern_found"
    by (intro ext) (rule plural_search_found)
  show ?thesis
    unfolding e[symmetric]
    by (simp add: scan_acronyms_def Let_def scan_usage_loop usage_loop_full[OF assms(1)]
        usage_loop_short[OF assms(1)] m)
qed

definition usage_entries :: "nat entry list" where
  "usage_entries =
     [(0, 1, ''preamble VAE''),
      (0, 2, begin_document),
      (0, 3, ''VAE and VAEs''),
      (0, 4, ''nothing here''),
      (0, 5, ''variational autoencoders (VAE)'')]"

text \<open>A long form with an accented capital, and lines that hold it in another case, after
  a letter, and in the plural.\<close>

definition accent_defs :: "(string \<times> nat acronym_def) list" where
  "accent_defs =
     [(''ens'', \<lparr>def_short = ''ENS'', def_full = CHR 0xC9 # ''cole'',
                def_file = 0, def_line = 1\<rparr>)]"

definition accent_entries :: "nat entry list" where
  "accent_entries =
     [(0, 1, begin_document),
      (0, 2, ''pr'' @ CHR 0xE9 # ''cole''),
      (0, 3, ''les '' @ CHR 0xC9 # ''COLES''),
      (0, 4, CHR 0xE9 # ''cole'' @ CHR 0xE9 # '' non'')]"

theorem usage_recorded_per_line_witness:
  "filter (\<lambda>(path, line_no, line). pattern_found ''Variational Autoencoder'' line)
     (content_from False usage_entries) = [(0, 5, ''variational autoencoders (VAE)'')] \<and>
   filter (\<lambda>(path, line_no, line). pattern_found ''VAE'' line)
     (content_from False usage_entries) =
     [(0, 3, ''VAE and VAEs''), (0, 5, ''variational autoencoders (VAE)'')] \<and>
   filter (\<lambda>(path, line_no, line). pattern_found (CHR 0xC9 # ''cole'') line)
     (content_from False accent_entries) = [(0, 3, ''les '' @ CHR 0xC9 # ''COLES'')]"
proof -
  have d: "distinct (map fst usage_defs)" "distinct (map fst accent_defs)"
    by (simp_all add: usage_defs_def accent_defs_def)
  have k: "(''vae'', \<lparr>def_short = ''VAE'', def_full = ''Variational Autoencoder'',
                def_file = 0, def_line = 1\<rparr>) \<in> set usage_defs"
    by (simp add: usage_defs_def)
  have k': "(''ens'', \<lparr>def_short = ''ENS'', def_full = CHR 0xC9 # ''cole'',
                def_file = 0, def_line = 1\<rparr>) \<in> set accent_defs"
    by (simp add: accent_defs_def)
  have f: "dict_get (used_full (scan_acronyms as_inserted usage_entries usage_defs)) ''vae'' =
      [(0, 5, ''variational autoencoders (VAE)'')]"
    by code_simp
  have s: "dict_get (used_short (scan_acronyms as_inserted usage_entries usage_defs)) ''vae'' =
      [(0, 3, ''VAE and VAEs''), (0, 5, ''variational autoencoders (VAE)'')]"
    by code_simp
  have g: "dict_get (used_full (scan_acronyms as_inserted accent_entries accent_defs)) ''ens'' =
      [(0, 3, ''les '' @ CHR 0xC9 # ''COLES'')]"
    by code_simp
  from usage_recorded_per_line[OF d(1) k, of as_inserted usage_entries]
  have t1: "dict_get (used_full (scan_acronyms as_inserted usage_entries usage_defs)) ''vae'' =
      filter (\<lambda>(path, line_no, line). pattern_found ''Variational Autoencoder'' line)
        (content_from False usage_entries)"
    and t2: "dict_get (used_short (scan_acronyms as_inserted usage_entries usage_defs)) ''vae'' =
      filter (\<lambda>(path, line_no, line). pattern_found ''VAE'' line)
        (content_from False usage_entries)"
    by simp_all
  from usage_recorded_per_line[OF d(2) k', of as_inserted accent_entries]
  have t3: "dict_get (used_full (scan_acronyms as_inserted accent_entries accent_defs)) ''ens'' =
      filter (\<lambda>(path, line_no, line). pattern_found (CHR 0xC9 # ''cole'') line)
        (content_from False accent_entries)"
    by simp
  show ?thesis
    by (intro conjI) (rule trans[OF t1[symmetric] f], rule trans[OF t2[symmetric] s],
        rule trans[OF t3[symmetric] g])
qed

subsection \<open>Bracketed tokens and their occurrences\<close>

text \<open>A token that the bracket pattern can capture, the token in its brackets, the number
  of positions of a text at which a string occurs, and the occurrences of a bracketed
  token in the body: one record for each position in each body line.\<close>

definition bracket_token :: "string \<Rightarrow> bool" where
  "bracket_token t = (2 \<le> length t \<and> length t \<le> 10 \<and> list_all capital_AZ t)"

definition bracketed :: "string \<Rightarrow> string" where
  "bracketed t = ''('' @ t @ '')''"

fun count_occ :: "string \<Rightarrow> string \<Rightarrow> nat" where
  "count_occ pat [] = (if pat = [] then 1 else 0)"
| "count_occ pat (c # cs) = (if prefix pat (c # cs) then 1 else 0) + count_occ pat cs"

definition token_occurrences :: "string \<Rightarrow> 'p entry list \<Rightarrow> 'p entry list" where
  "token_occurrences acronym content =
     concat (map (\<lambda>(path, line_no, line).
        replicate (count_occ (bracketed acronym) line) (path, line_no, str_strip line)) content)"

lemma capital_AZ_not_paren: "capital_AZ c \<Longrightarrow> c \<noteq> CHR ''('' \<and> c \<noteq> CHR '')''"
  by (auto simp: capital_AZ_def code_def)

lemma capital_AZ_not_space: "capital_AZ c \<Longrightarrow> \<not> isspace c"
  by (auto simp: capital_AZ_def isspace_def)

lemma paren_match_at_Some:
  assumes "paren_match_at s = Some (tok, rest)"
  shows "s = ''('' @ tok @ '')'' @ rest \<and> bracket_token tok"
proof -
  from assms obtain cs where s: "s = CHR ''('' # cs"
    by (cases s) (auto simp: paren_match_at_def split: if_splits)
  from assms s have t: "tok = takeWhile capital_AZ cs"
    and d: "dropWhile capital_AZ cs = CHR '')'' # rest"
    and l: "2 \<le> length tok" "length tok \<le> 10"
    by (auto simp: paren_match_at_def Let_def split: list.splits if_splits)
  have "cs = takeWhile capital_AZ cs @ dropWhile capital_AZ cs"
    by simp
  with t d have "cs = tok @ CHR '')'' # rest" by simp
  moreover have "list_all capital_AZ tok"
    unfolding t list_all_iff by (auto dest: set_takeWhileD)
  ultimately show ?thesis using s l by (simp add: bracket_token_def)
qed

lemma paren_match_at_prefix:
  assumes "bracket_token t" and "prefix (bracketed t) s"
  shows "\<exists>rest. paren_match_at s = Some (t, rest)"
proof -
  from assms(2) obtain r where s: "s = CHR ''('' # t @ CHR '')'' # r"
    by (auto simp: prefix_def bracketed_def)
  from assms(1) have u: "\<forall>c \<in> set t. capital_AZ c" and l: "2 \<le> length t" "length t \<le> 10"
    by (auto simp: bracket_token_def list_all_iff)
  have n: "\<not> capital_AZ (CHR '')'')"
    using capital_AZ_not_paren by blast
  from u n have "takeWhile capital_AZ (t @ CHR '')'' # r) = t"
    by (simp add: takeWhile_tail)
  moreover from u n have "dropWhile capital_AZ (t @ CHR '')'' # r) = CHR '')'' # r"
    by (simp add: dropWhile_append3)
  ultimately show ?thesis using s l
    by (simp add: paren_match_at_def)
qed

lemma count_occ_skip:
  assumes "pat \<noteq> []" and "\<forall>c \<in> set xs. c \<noteq> hd pat"
  shows "count_occ pat (xs @ ys) = count_occ pat ys"
  using assms(2)
proof (induction xs)
  case Nil
  show ?case by simp
next
  case (Cons x xs)
  from Cons.prems assms(1) have "\<not> prefix pat (x # xs @ ys)"
    by (cases pat) auto
  with Cons show ?case by simp
qed

lemma findall_count:
  assumes "bracket_token t"
  shows "filter (\<lambda>m. m = t) (paren_findall s) = replicate (count_occ (bracketed t) s) t"
proof (induction s rule: paren_findall.induct)
  case 1
  show ?case by (simp add: bracketed_def)
next
  case (2 c cs)
  show ?case
  proof (cases "paren_match_at (c # cs)")
    case None
    with paren_match_at_prefix[OF assms, of "c # cs"] have "\<not> prefix (bracketed t) (c # cs)"
      by auto
    with None "2.IH"(1) show ?thesis by simp
  next
    case (Some a)
    obtain tok rest where a: "a = (tok, rest)" by (cases a)
    from paren_match_at_Some[of "c # cs" tok rest] Some a
    have s: "c # cs = ''('' @ tok @ '')'' @ rest" and b: "bracket_token tok"
      by auto
    from s have cs: "cs = (tok @ '')'') @ rest" and c: "c = CHR ''(''"
      by auto
    from b have "\<forall>x \<in> set (tok @ '')''). x \<noteq> hd (bracketed t)"
      using capital_AZ_not_paren by (auto simp: bracket_token_def list_all_iff bracketed_def)
    then have k: "count_occ (bracketed t) cs = count_occ (bracketed t) rest"
      unfolding cs by (intro count_occ_skip) (simp add: bracketed_def)
    have p: "prefix (bracketed t) (c # cs) \<longleftrightarrow> tok = t"
    proof
      assume "prefix (bracketed t) (c # cs)"
      with paren_match_at_prefix[OF assms] Some a show "tok = t" by fastforce
    next
      assume "tok = t"
      with s show "prefix (bracketed t) (c # cs)"
        by (simp add: bracketed_def)
    qed
    from "2.IH"(2)[OF Some a[symmetric]]
    have "filter (\<lambda>m. m = t) (paren_findall rest) = replicate (count_occ (bracketed t) rest) t"
      by simp
    with Some a k p show ?thesis by auto
  qed
qed

lemma findall_tokens: "m \<in> set (paren_findall s) \<Longrightarrow> bracket_token m"
proof (induction s rule: paren_findall.induct)
  case 1
  then show ?case by simp
next
  case (2 c cs)
  show ?case
  proof (cases "paren_match_at (c # cs)")
    case None
    with 2 show ?thesis by simp
  next
    case (Some a)
    obtain tok rest where a: "a = (tok, rest)" by (cases a)
    from paren_match_at_Some[of "c # cs" tok rest] Some a have "bracket_token tok"
      by simp
    with 2 Some a show ?thesis by auto
  qed
qed

lemma strip_no_space: "\<forall>c \<in> set s. \<not> isspace c \<Longrightarrow> str_strip s = s"
proof -
  assume a: "\<forall>c \<in> set s. \<not> isspace c"
  have d: "dropWhile isspace xs = xs" if "\<forall>c \<in> set xs. \<not> isspace c" for xs
    using that by (cases xs) auto
  from a have "dropWhile isspace s = s" by (rule d)
  moreover from a have "dropWhile isspace (rev s) = rev s" by (intro d) simp
  ultimately show ?thesis by (simp add: str_strip_def)
qed

lemma strip_token: "bracket_token m \<Longrightarrow> str_strip m = m"
  by (intro strip_no_space) (auto simp: bracket_token_def list_all_iff capital_AZ_not_space)

subsection \<open>The recorded occurrences of a token\<close>

definition excluded :: "string list \<Rightarrow> string \<Rightarrow> bool" where
  "excluded defined_shorts k = (k \<in> set defined_shorts \<or> k \<in> set roman_numerals)"

lemma undefined_step_counts:
  assumes "bracket_token m"
  shows "dict_get (fst (undefined_step ds path n line st m)) k =
     dict_get (fst st) k @
     (if k = m \<and> \<not> excluded ds k then [(path, n, str_strip line)] else [])"
  using strip_token[OF assms]
  by (auto simp: undefined_step_def Let_def excluded_def dict_get_append)

lemma undefined_steps_counts:
  assumes "\<forall>m \<in> set ms. bracket_token m"
  shows "dict_get (fst (foldl (undefined_step ds path n line) st ms)) k =
     dict_get (fst st) k @
     (if excluded ds k then []
      else replicate (length (filter (\<lambda>m. m = k) ms)) (path, n, str_strip line))"
  using assms
proof (induction ms arbitrary: st)
  case Nil
  show ?case by simp
next
  case (Cons m ms)
  from Cons.prems have b: "bracket_token m" and r: "\<forall>m \<in> set ms. bracket_token m"
    by auto
  have "foldl (undefined_step ds path n line) st (m # ms) =
      foldl (undefined_step ds path n line) (undefined_step ds path n line st m) ms"
    by simp
  then show ?case
    by (simp only: Cons.IH[OF r] undefined_step_counts[OF b]) (auto simp: replicate_append_same)
qed

definition undefined_loop ::
  "string list \<Rightarrow> (string \<times> 'p entry list) list \<times> (string \<times> string list) list \<Rightarrow> 'p entry \<Rightarrow>
   (string \<times> 'p entry list) list \<times> (string \<times> string list) list" where
  "undefined_loop ds st e =
     foldl (undefined_step ds (fst e) (fst (snd e)) (snd (snd e))) st
       (paren_findall (snd (snd e)))"

lemma scan_undefined_loop: "scan_undefined ds content = foldl (undefined_loop ds) ([], []) content"
proof -
  have e: "(\<lambda>st (path, line_no, line).
          foldl (undefined_step ds path line_no line) st (paren_findall line))
      = undefined_loop ds"
    by (intro ext) (simp add: undefined_loop_def split_def)
  show ?thesis
    unfolding scan_undefined_def e by (rule refl)
qed

lemma undefined_loop_counts:
  "dict_get (fst (undefined_loop ds st (path, n, line))) k =
     dict_get (fst st) k @
     (if bracket_token k \<and> \<not> excluded ds k
      then replicate (count_occ (bracketed k) line) (path, n, str_strip line) else [])"
proof -
  have t: "\<forall>m \<in> set (paren_findall line). bracket_token m"
    using findall_tokens by blast
  have "filter (\<lambda>m. m = k) (paren_findall line) = []" if "\<not> bracket_token k"
    using that t by (auto simp: filter_empty_conv)
  moreover have "length (filter (\<lambda>m. m = k) (paren_findall line)) =
      count_occ (bracketed k) line" if "bracket_token k"
    using findall_count[OF that, of line] by simp
  ultimately show ?thesis
    by (auto simp: undefined_loop_def undefined_steps_counts[OF t])
qed

lemma undefined_loops_counts:
  "dict_get (fst (foldl (undefined_loop ds) st content)) k =
     dict_get (fst st) k @
     (if bracket_token k \<and> \<not> excluded ds k then token_occurrences k content else [])"
proof (induction content arbitrary: st)
  case Nil
  show ?case by (simp add: token_occurrences_def)
next
  case (Cons e content)
  obtain path n line where e: "e = (path, n, line)" by (cases e)
  have "foldl (undefined_loop ds) st (e # content) =
      foldl (undefined_loop ds) (undefined_loop ds st e) content"
    by simp
  then show ?case
    by (simp only: Cons.IH) (simp add: e undefined_loop_counts token_occurrences_def)
qed

lemma recorded_occurrences:
  "dict_get (fst (scan_undefined ds content)) k =
     (if bracket_token k \<and> \<not> excluded ds k then token_occurrences k content else [])"
  by (simp add: scan_undefined_loop undefined_loops_counts)

text \<open>The keys of the recorded occurrences are distinct, and each has an occurrence.\<close>

lemma undefined_step_keys:
  "distinct (map fst (fst st)) \<and> filled (fst st) \<Longrightarrow>
   distinct (map fst (fst (undefined_step ds path n line st m))) \<and>
   filled (fst (undefined_step ds path n line st m))"
  by (auto simp: undefined_step_def Let_def dict_append_distinct filled_append)

lemma undefined_steps_keys:
  "distinct (map fst (fst st)) \<and> filled (fst st) \<Longrightarrow>
   distinct (map fst (fst (foldl (undefined_step ds path n line) st ms))) \<and>
   filled (fst (foldl (undefined_step ds path n line) st ms))"
proof (induction ms arbitrary: st)
  case Nil
  then show ?case by simp
next
  case (Cons m ms)
  from undefined_step_keys[OF Cons.prems] Cons.IH show ?case by simp
qed

lemma undefined_loops_keys:
  "distinct (map fst (fst st)) \<and> filled (fst st) \<Longrightarrow>
   distinct (map fst (fst (foldl (undefined_loop ds) st content))) \<and>
   filled (fst (foldl (undefined_loop ds) st content))"
proof (induction content arbitrary: st)
  case Nil
  then show ?case by simp
next
  case (Cons e content)
  from Cons.prems have "distinct (map fst (fst (undefined_loop ds st e))) \<and>
      filled (fst (undefined_loop ds st e))"
    unfolding undefined_loop_def by (rule undefined_steps_keys)
  with Cons.IH show ?case by simp
qed

lemma scan_undefined_keys:
  "distinct (map fst (fst (scan_undefined ds content)))"
  "filled (fst (scan_undefined ds content))"
  using undefined_loops_keys[of "([], [])" ds content]
  by (simp_all add: scan_undefined_loop filled_def)

subsection \<open>The noise filter\<close>

definition tagged :: "string \<Rightarrow> 'p entry list \<Rightarrow> (string \<times> 'p \<times> nat \<times> string) list" where
  "tagged acronym occurrences =
     map (\<lambda>(path, line_no, line). (acronym, path, line_no, line)) occurrences"

definition of_token :: "string \<Rightarrow> (string \<times> 'p \<times> nat \<times> string) list \<Rightarrow>
    (string \<times> 'p \<times> nat \<times> string) list" where
  "of_token acronym reported = filter (\<lambda>r. fst r = acronym) reported"

lemma of_token_tagged: "of_token k (tagged a occ) = (if a = k then tagged a occ else [])"
  by (induction occ) (auto simp: of_token_def tagged_def)

lemma report_step_of_token:
  "of_token k (report_step reported (a, occ)) =
     of_token k reported @ (if a = k \<and> 2 \<le> length occ then tagged a occ else [])"
proof -
  have "report_step reported (a, occ) =
      (if 2 \<le> length occ then reported @ tagged a occ else reported)"
    by (simp add: report_step_def tagged_def)
  then show ?thesis
    using of_token_tagged[of k a occ] by (auto simp: of_token_def)
qed

lemma report_steps_of_token:
  "distinct (map fst d) \<Longrightarrow>
   of_token k (foldl report_step reported d) =
     of_token k reported @
     (if 2 \<le> length (dict_get d k) then tagged k (dict_get d k) else [])"
proof (induction d arbitrary: reported)
  case Nil
  show ?case by simp
next
  case (Cons item d)
  obtain a occ where i: "item = (a, occ)" by (cases item)
  from Cons.prems have dd: "distinct (map fst d)" and n: "a \<notin> fst ` set d"
    by (auto simp: i)
  from n have "map_of d a = None"
    by (simp add: map_of_eq_None_iff)
  then have m: "dict_get d a = []"
    by (simp add: dict_get_def)
  have g: "dict_get ((a, occ) # d) k = (if a = k then occ else dict_get d k)"
    by (simp add: dict_get_def)
  have f: "of_token k (foldl report_step reported (item # d)) =
      (of_token k reported @ (if a = k \<and> 2 \<le> length occ then tagged a occ else [])) @
      (if 2 \<le> length (dict_get d k) then tagged k (dict_get d k) else [])"
    by (simp add: Cons.IH[OF dd] i report_step_of_token)
  show ?case
  proof (cases "a = k")
    case True
    with m have "dict_get d k = []" by simp
    with True f g show ?thesis by (simp add: i)
  next
    case False
    with f g show ?thesis by (simp add: i)
  qed
qed

lemma report_repeated_of_token:
  "distinct (map fst d) \<Longrightarrow>
   of_token k (report_repeated d) =
     (if 2 \<le> length (dict_get d k) then tagged k (dict_get d k) else [])"
  by (simp add: report_repeated_def report_steps_of_token) (simp add: of_token_def)

text \<open>
  Claim C2. Let the token be one that the bracket pattern captures (two to ten ASCII
  capitals), neither a defined short form nor one of the Roman numerals. The entries of
  the undefined-acronym list that carry the token are, in order, all its occurrences in
  body content when there are two or more of them, and none when there is exactly one
  (or none): an occurrence is a position of a body line at which the bracketed token
  stands, and its entry holds the file, the line number and the trimmed line.
\<close>

theorem noise_filter:
  assumes "bracket_token acronym"
    and "acronym \<notin> set (map (\<lambda>(key, v). def_short v) acronym_defs)"
    and "acronym \<notin> set roman_numerals"
  shows "of_token acronym (undefined_list (scan_acronyms order entries acronym_defs)) =
     (if 2 \<le> length (token_occurrences acronym (content_from False entries))
      then tagged acronym (token_occurrences acronym (content_from False entries))
      else [])"
proof -
  let ?ds = "map (\<lambda>(key, v). def_short v) acronym_defs"
  let ?counts = "fst (scan_undefined ?ds (content_from False entries))"
  from assms have "dict_get ?counts acronym =
      token_occurrences acronym (content_from False entries)"
    by (simp add: recorded_occurrences excluded_def)
  moreover have "of_token acronym (report_repeated ?counts) =
      (if 2 \<le> length (dict_get ?counts acronym) then tagged acronym (dict_get ?counts acronym)
       else [])"
    by (rule report_repeated_of_token) (rule scan_undefined_keys)
  ultimately show ?thesis
    by (simp add: scan_acronyms_def Let_def)
qed

definition noise_entries :: "nat entry list" where
  "noise_entries =
     [(0, 1, ''before (WM) the body''),
      (0, 2, begin_document),
      (0, 3, ''a World Model (WM) or (WM)''),
      (0, 4, ''once (AB) only''),
      (0, 5, ''Part (II) and Part (II)'')]"

theorem noise_filter_witness:
  "of_token ''WM'' (undefined_list (scan_acronyms as_inserted noise_entries [])) =
     [(''WM'', 0, 3, ''a World Model (WM) or (WM)''),
      (''WM'', 0, 3, ''a World Model (WM) or (WM)'')] \<and>
   token_occurrences ''AB'' (content_from False noise_entries) = [(0, 4, ''once (AB) only'')] \<and>
   of_token ''AB'' (undefined_list (scan_acronyms as_inserted noise_entries [])) = []"
proof -
  have b: "bracket_token ''WM''" "bracket_token ''AB''"
    by code_simp+
  have d: "''WM'' \<notin> set (map (\<lambda>(key, v). def_short v) ([] :: (string \<times> nat acronym_def) list))"
    "''AB'' \<notin> set (map (\<lambda>(key, v). def_short v) ([] :: (string \<times> nat acronym_def) list))"
    by simp_all
  have r: "''WM'' \<notin> set roman_numerals" "''AB'' \<notin> set roman_numerals"
    by code_simp+
  have o: "token_occurrences ''WM'' (content_from False noise_entries) =
      [(0, 3, ''a World Model (WM) or (WM)''), (0, 3, ''a World Model (WM) or (WM)'')]"
    "token_occurrences ''AB'' (content_from False noise_entries) = [(0, 4, ''once (AB) only'')]"
    by code_simp+
  from noise_filter[OF b(1) d(1) r(1), of as_inserted noise_entries]
    noise_filter[OF b(2) d(2) r(2), of as_inserted noise_entries]
  show ?thesis
    unfolding o by (simp add: tagged_def)
qed

subsection \<open>The recovered long forms\<close>

lemma dict_add_distinct: "distinct (map fst d) \<Longrightarrow> distinct (map fst (dict_add d k v))"
  by (simp add: dict_add_keys)

lemma dict_add_values:
  "list_all (\<lambda>x. distinct (snd x)) d \<Longrightarrow> list_all (\<lambda>x. distinct (snd x)) (dict_add d k v)"
  by (induction d) (auto simp: set_add_def)

text \<open>The state of the scan for bracketed tokens: the tokens with a recovered long form
  are distinct keys, each with a list of distinct long forms, and each is a token with a
  recorded occurrence.\<close>

definition recovered_ok ::
  "(string \<times> 'p entry list) list \<times> (string \<times> string list) list \<Rightarrow> bool" where
  "recovered_ok st =
     (distinct (map fst (snd st)) \<and> list_all (\<lambda>x. distinct (snd x)) (snd st) \<and>
      fst ` set (snd st) \<subseteq> fst ` set (fst st))"

lemma undefined_step_recovered:
  assumes "recovered_ok st"
  shows "recovered_ok (undefined_step ds path n line st m)"
proof (cases "str_strip m \<notin> set ds \<and> str_strip m \<notin> set roman_numerals")
  case False
  with assms show ?thesis by (auto simp: undefined_step_def Let_def)
next
  case True
  show ?thesis
  proof (cases "recover_full_form (str_strip m) line")
    case None
    with True assms show ?thesis
      by (auto simp: undefined_step_def Let_def recovered_ok_def dict_append_key_set)
  next
    case (Some ff)
    with True have s: "snd (undefined_step ds path n line st m) =
        dict_add (snd st) (str_strip m) ff"
      and f: "fst (undefined_step ds path n line st m) =
        dict_append (fst st) (str_strip m) (path, n, str_strip line)"
      by (simp_all add: undefined_step_def Let_def)
    from assms show ?thesis
      unfolding recovered_ok_def s f
      using dict_add_values[of "snd st" "str_strip m" ff]
      by (auto simp: dict_add_distinct dict_add_key_set dict_append_key_set)
  qed
qed

lemma undefined_steps_recovered:
  "recovered_ok st \<Longrightarrow> recovered_ok (foldl (undefined_step ds path n line) st ms)"
  by (induction ms arbitrary: st) (simp_all add: undefined_step_recovered)

lemma undefined_loops_recovered:
  "recovered_ok st \<Longrightarrow> recovered_ok (foldl (undefined_loop ds) st content)"
  by (induction content arbitrary: st)
    (simp_all add: undefined_loop_def undefined_steps_recovered)

lemma scan_undefined_recovered: "recovered_ok (scan_undefined ds content)"
  unfolding scan_undefined_loop
  by (rule undefined_loops_recovered) (simp add: recovered_ok_def)

subsection \<open>Standalone uses of a recovered long form\<close>

text \<open>The records that one long form of one token contributes to the inconsistent-usage
  list of the token.\<close>

definition flagged :: "string \<Rightarrow> string \<Rightarrow> 'p entry list \<Rightarrow> ('p \<times> nat \<times> string \<times> string) list" where
  "flagged acronym full_form content =
     map (\<lambda>(path, line_no, line). (path, line_no, str_strip line, full_form))
       (filter (\<lambda>(path, line_no, line). standalone_search full_form acronym line) content)"

lemma inconsistent_step_get:
  "dict_get (inconsistent_step a ff usage (path, n, line)) k =
     dict_get usage k @
     (if k = a \<and> standalone_search ff a line then [(path, n, str_strip line, ff)] else [])"
  by (simp add: inconsistent_step_def dict_get_append)

lemma inconsistent_step_filled: "filled usage \<Longrightarrow> filled (inconsistent_step a ff usage e)"
  by (cases e) (simp add: inconsistent_step_def filled_append)

lemma inconsistent_steps_get:
  "dict_get (foldl (inconsistent_step a ff) usage content) k =
     dict_get usage k @ (if k = a then flagged a ff content else [])"
proof (induction content arbitrary: usage)
  case Nil
  show ?case by (simp add: flagged_def)
next
  case (Cons e content)
  obtain path n line where e: "e = (path, n, line)" by (cases e)
  show ?case
    by (simp add: Cons.IH e inconsistent_step_get flagged_def)
qed

lemma inconsistent_steps_filled:
  "filled usage \<Longrightarrow> filled (foldl (inconsistent_step a ff) usage content)"
  by (induction content arbitrary: usage) (simp_all add: inconsistent_step_filled)

definition inconsistent_forms ::
  "'p entry list \<Rightarrow> string \<Rightarrow> (string \<times> ('p \<times> nat \<times> string \<times> string) list) list \<Rightarrow>
   string list \<Rightarrow> (string \<times> ('p \<times> nat \<times> string \<times> string) list) list" where
  "inconsistent_forms content a usage ffs =
     foldl (\<lambda>usage ff. foldl (inconsistent_step a ff) usage content) usage ffs"

lemma inconsistent_forms_get:
  "dict_get (inconsistent_forms content a usage ffs) k =
     dict_get usage k @ (if k = a then concat (map (\<lambda>ff. flagged a ff content) ffs) else [])"
  unfolding inconsistent_forms_def
  by (induction ffs arbitrary: usage) (simp_all add: inconsistent_steps_get)

lemma inconsistent_forms_filled:
  "filled usage \<Longrightarrow> filled (inconsistent_forms content a usage ffs)"
  unfolding inconsistent_forms_def
  by (induction ffs arbitrary: usage) (simp_all add: inconsistent_steps_filled)

definition inconsistent_loop ::
  "(string list \<Rightarrow> string list) \<Rightarrow> 'p entry list \<Rightarrow>
   (string \<times> ('p \<times> nat \<times> string \<times> string) list) list \<Rightarrow>
   string \<times> string list \<Rightarrow> (string \<times> ('p \<times> nat \<times> string \<times> string) list) list" where
  "inconsistent_loop order content usage item =
     inconsistent_forms content (fst item) usage (order (snd item))"

lemma scan_inconsistent_loop:
  "scan_inconsistent order content recovered = foldl (inconsistent_loop order content) [] recovered"
proof -
  have e: "(\<lambda>usage (acronym, full_forms).
        foldl (\<lambda>usage full_form.
           foldl (inconsistent_step acronym full_form) usage content)
          usage (order full_forms)) = inconsistent_loop order content"
    by (intro ext) (simp add: inconsistent_loop_def inconsistent_forms_def split_def)
  show ?thesis
    unfolding scan_inconsistent_def e by (rule refl)
qed

lemma inconsistent_loops_get:
  "distinct (map fst recovered) \<Longrightarrow> order [] = [] \<Longrightarrow>
   dict_get (foldl (inconsistent_loop order content) usage recovered) k =
     dict_get usage k @
     concat (map (\<lambda>ff. flagged k ff content) (order (dict_get recovered k)))"
proof (induction recovered arbitrary: usage)
  case Nil
  then show ?case by simp
next
  case (Cons item recovered)
  obtain a ffs where i: "item = (a, ffs)" by (cases item)
  from Cons.prems have dd: "distinct (map fst recovered)" and n: "a \<notin> fst ` set recovered"
    by (auto simp: i)
  from n have "map_of recovered a = None"
    by (simp add: map_of_eq_None_iff)
  then have m: "dict_get recovered a = []"
    by (simp add: dict_get_def)
  have g: "dict_get ((a, ffs) # recovered) k = (if a = k then ffs else dict_get recovered k)"
    by (simp add: dict_get_def)
  have f: "dict_get (foldl (inconsistent_loop order content) usage (item # recovered)) k =
      (dict_get usage k @
       (if k = a then concat (map (\<lambda>ff. flagged a ff content) (order ffs)) else [])) @
      concat (map (\<lambda>ff. flagged k ff content) (order (dict_get recovered k)))"
    by (simp add: Cons.IH[OF dd Cons.prems(2)] i inconsistent_loop_def inconsistent_forms_get)
  show ?case
  proof (cases "a = k")
    case True
    with m have "dict_get recovered k = []" by simp
    with True f g Cons.prems(2) show ?thesis by (simp add: i)
  next
    case False
    with f g show ?thesis by (simp add: i)
  qed
qed

lemma inconsistent_loops_filled:
  "filled usage \<Longrightarrow> filled (foldl (inconsistent_loop order content) usage recovered)"
  by (induction recovered arbitrary: usage)
    (simp_all add: inconsistent_loop_def inconsistent_forms_filled)

lemma scan_inconsistent_get:
  "distinct (map fst recovered) \<Longrightarrow> order [] = [] \<Longrightarrow>
   dict_get (scan_inconsistent order content recovered) k =
     concat (map (\<lambda>ff. flagged k ff content) (order (dict_get recovered k)))"
  by (simp add: scan_inconsistent_loop inconsistent_loops_get)

lemma scan_inconsistent_filled: "filled (scan_inconsistent order content recovered)"
  unfolding scan_inconsistent_loop
  by (rule inconsistent_loops_filled) (simp add: filled_def)

text \<open>The keys of the inconsistent-usage mapping, in the order in which they are
  created: a token gets its key with its first record.\<close>

lemma inconsistent_steps_keys:
  "map fst (foldl (inconsistent_step a ff) usage content) =
     (if flagged a ff content = [] \<or> a \<in> fst ` set usage then map fst usage
      else map fst usage @ [a])"
proof (induction content arbitrary: usage)
  case Nil
  show ?case by (simp add: flagged_def)
next
  case (Cons e content)
  obtain path n line where e: "e = (path, n, line)" by (cases e)
  show ?case
  proof (cases "standalone_search ff a line")
    case True
    then have s: "inconsistent_step a ff usage e =
        dict_append usage a (path, n, str_strip line, ff)"
      by (simp add: inconsistent_step_def e)
    from True have f: "flagged a ff (e # content) \<noteq> []"
      by (simp add: flagged_def e)
    show ?thesis
      using f by (simp add: Cons.IH s dict_append_keys dict_append_key_set)
  next
    case False
    then have s: "inconsistent_step a ff usage e = usage"
      by (simp add: inconsistent_step_def e)
    from False have f: "flagged a ff (e # content) = flagged a ff content"
      by (simp add: flagged_def e)
    show ?thesis
      by (simp add: Cons.IH s f)
  qed
qed

lemma inconsistent_steps_key_set:
  "fst ` set (foldl (inconsistent_step a ff) usage content) =
     (if flagged a ff content = [] then fst ` set usage else insert a (fst ` set usage))"
proof -
  have "set (map fst (foldl (inconsistent_step a ff) usage content)) =
      (if flagged a ff content = [] then set (map fst usage) else insert a (set (map fst usage)))"
    unfolding inconsistent_steps_keys by auto
  then show ?thesis by simp
qed

lemma inconsistent_forms_keys:
  "map fst (inconsistent_forms content a usage ffs) =
     (if (\<forall>ff \<in> set ffs. flagged a ff content = []) \<or> a \<in> fst ` set usage then map fst usage
      else map fst usage @ [a])"
  unfolding inconsistent_forms_def
proof (induction ffs arbitrary: usage)
  case Nil
  show ?case by simp
next
  case (Cons ff ffs)
  show ?case
    by (simp add: Cons.IH inconsistent_steps_keys inconsistent_steps_key_set)
qed

lemma inconsistent_loops_keys:
  assumes "\<And>xs. set (order xs) = set xs" and "\<And>xs. set (order' xs) = set xs"
  shows "map fst usage = map fst usage' \<Longrightarrow>
     map fst (foldl (inconsistent_loop order content) usage recovered) =
     map fst (foldl (inconsistent_loop order' content) usage' recovered)"
proof (induction recovered arbitrary: usage usage')
  case Nil
  then show ?case by simp
next
  case (Cons item recovered)
  from Cons.prems have "set (map fst usage) = set (map fst usage')"
    by simp
  then have k: "fst ` set usage = fst ` set usage'"
    by simp
  have "map fst (inconsistent_loop order content usage item) =
      map fst (inconsistent_loop order' content usage' item)"
    by (simp add: inconsistent_loop_def inconsistent_forms_keys assms Cons.prems k)
  then show ?case
    by (simp add: Cons.IH)
qed

lemma scan_inconsistent_keys:
  assumes "\<And>xs. set (order xs) = set xs" and "\<And>xs. set (order' xs) = set xs"
  shows "map fst (scan_inconsistent order content recovered) =
     map fst (scan_inconsistent order' content recovered)"
  unfolding scan_inconsistent_loop
  by (rule inconsistent_loops_keys[OF assms]) simp

lemma dict_get_key: "dict_get d k \<noteq> [] \<Longrightarrow> k \<in> fst ` set d"
proof -
  assume "dict_get d k \<noteq> []"
  then have "map_of d k \<noteq> None"
    by (cases "map_of d k") (auto simp: dict_get_def)
  then show ?thesis
    by (simp add: map_of_eq_None_iff)
qed

subsection \<open>Standalone uses, by position\<close>

text \<open>
  A long form occurs at a position of the line when the text there equals it up to case
  and a word boundary stands on each side; the token follows a position when only white
  space separates the position from the bracketed token, compared up to case. A line
  holds a standalone use when the long form occurs at a position where the token does not
  follow it.
\<close>

definition boundary_at :: "string \<Rightarrow> nat \<Rightarrow> bool" where
  "boundary_at line i = word_boundary (char_before line i) (drop i line)"

definition long_form_at :: "string \<Rightarrow> string \<Rightarrow> nat \<Rightarrow> bool" where
  "long_form_at full_form line i =
     (boundary_at line i \<and> ci_prefix full_form (drop i line) \<and>
      boundary_at line (i + length full_form))"

definition token_follows :: "string \<Rightarrow> string \<Rightarrow> nat \<Rightarrow> bool" where
  "token_follows acronym line j =
     (\<exists>ws tail. drop j line = ws @ tail \<and> list_all isspace ws \<and>
        ci_prefix (bracketed acronym) tail)"

definition standalone_use :: "string \<Rightarrow> string \<Rightarrow> string \<Rightarrow> bool" where
  "standalone_use full_form acronym line =
     (\<exists>i\<le>length line. long_form_at full_form line i \<and>
        \<not> token_follows acronym line (i + length full_form))"

lemma ci_prefix_length: "ci_prefix p s \<Longrightarrow> length p \<le> length s"
  by (induction p s rule: ci_prefix.induct) auto

lemma lower_paren: "lower c = CHR ''('' \<Longrightarrow> c = CHR ''(''"
  by (cases c) (auto simp: lower_code isupper_code split: if_splits)

lemma trailing_token_iff:
  "trailing_token acronym r \<longleftrightarrow>
     (\<exists>ws tail. r = ws @ tail \<and> list_all isspace ws \<and> ci_prefix (bracketed acronym) tail)"
proof
  assume "trailing_token acronym r"
  then have "ci_prefix (bracketed acronym) (dropWhile isspace r)"
    by (simp add: trailing_token_def bracketed_def)
  moreover have "r = takeWhile isspace r @ dropWhile isspace r"
    by simp
  moreover have "list_all isspace (takeWhile isspace r)"
    by (auto simp: list_all_iff dest: set_takeWhileD)
  ultimately show "\<exists>ws tail. r = ws @ tail \<and> list_all isspace ws \<and>
      ci_prefix (bracketed acronym) tail"
    by blast
next
  assume "\<exists>ws tail. r = ws @ tail \<and> list_all isspace ws \<and> ci_prefix (bracketed acronym) tail"
  then obtain ws tail where r: "r = ws @ tail" and w: "list_all isspace ws"
    and p: "ci_prefix (bracketed acronym) tail"
    by blast
  from p obtain c t where t: "tail = c # t" and "lower (CHR ''('') = lower c"
    by (cases tail) (auto simp: bracketed_def)
  then have "lower c = CHR ''(''"
    by (simp add: lower_def isupper_def code_def)
  then have "c = CHR ''(''"
    by (rule lower_paren)
  then have "\<not> isspace c"
    by (simp add: isspace_def code_def)
  with w t have "dropWhile isspace (ws @ tail) = tail"
    by (simp add: dropWhile_append2 list_all_iff)
  with p r show "trailing_token acronym r"
    by (simp add: trailing_token_def bracketed_def)
qed

lemma standalone_search_from_iff:
  "standalone_search_from ff a prev s \<longleftrightarrow>
     (\<exists>i\<le>length s.
        standalone_match_at ff a (if i = 0 then prev else Some (s ! (i - 1))) (drop i s))"
proof (induction s arbitrary: prev)
  case Nil
  show ?case by simp
next
  case (Cons c cs)
  have "(\<exists>i\<le>length (c # cs).
          standalone_match_at ff a (if i = 0 then prev else Some ((c # cs) ! (i - 1)))
            (drop i (c # cs)))
      \<longleftrightarrow> standalone_match_at ff a prev (c # cs) \<or>
          (\<exists>j\<le>length cs.
             standalone_match_at ff a (if j = 0 then Some c else Some (cs ! (j - 1))) (drop j cs))"
    (is "?L \<longleftrightarrow> ?A \<or> ?B")
  proof
    assume ?L
    then obtain i where i: "i \<le> length (c # cs)"
      "standalone_match_at ff a (if i = 0 then prev else Some ((c # cs) ! (i - 1)))
         (drop i (c # cs))"
      by blast
    show "?A \<or> ?B"
    proof (cases i)
      case 0
      with i show ?thesis by simp
    next
      case (Suc j)
      with i have "j \<le> length cs"
        "standalone_match_at ff a (if j = 0 then Some c else Some (cs ! (j - 1))) (drop j cs)"
        by (auto simp: nth_Cons split: nat.splits if_splits)
      then show ?thesis by blast
    qed
  next
    assume "?A \<or> ?B"
    then show ?L
    proof
      assume ?A
      then show ?L by (intro exI[of _ 0]) simp
    next
      assume ?B
      then obtain j where j: "j \<le> length cs"
        "standalone_match_at ff a (if j = 0 then Some c else Some (cs ! (j - 1))) (drop j cs)"
        by blast
      then have "standalone_match_at ff a
          (if Suc j = 0 then prev else Some ((c # cs) ! (Suc j - 1))) (drop (Suc j) (c # cs))"
        by (auto simp: nth_Cons split: nat.splits if_splits)
      with j(1) show ?L by (intro exI[of _ "Suc j"]) simp
    qed
  qed
  then show ?case by (simp add: Cons.IH)
qed

lemma standalone_match_at_position:
  assumes "i \<le> length line"
  shows "standalone_match_at ff a (char_before line i) (drop i line) \<longleftrightarrow>
     long_form_at ff line i \<and> \<not> token_follows a line (i + length ff)"
proof (cases "ci_prefix ff (drop i line)")
  case False
  then show ?thesis
    by (simp add: standalone_match_at_def long_form_at_def)
next
  case True
  then have l: "length ff \<le> length line - i"
    using ci_prefix_length by fastforce
  have p: "prev_after (length ff) (char_before line i) (drop i line) =
      char_before line (i + length ff)"
  proof (cases "length ff = 0")
    case True
    then show ?thesis by (simp add: prev_after_def)
  next
    case False
    then have "0 < length ff"
      by simp
    then have e: "i + (length ff - 1) = i + length ff - 1"
      by arith
    have "drop i line ! (length ff - 1) = line ! (i + (length ff - 1))"
      using assms by (rule nth_drop)
    then have "drop i line ! (length ff - 1) = line ! (i + length ff - 1)"
      by (simp only: e)
    with False show ?thesis
      by (simp add: prev_after_def char_before_def)
  qed
  have d: "drop (length ff) (drop i line) = drop (i + length ff) line"
    by (simp add: add.commute)
  show ?thesis
    unfolding standalone_match_at_def long_form_at_def boundary_at_def token_follows_def
      Let_def p d trailing_token_iff
    using True by blast
qed

lemma standalone_search_use: "standalone_search ff a line = standalone_use ff a line"
proof -
  have "standalone_search ff a line \<longleftrightarrow>
      (\<exists>i\<le>length line. standalone_match_at ff a (char_before line i) (drop i line))"
    by (simp add: standalone_search_def standalone_search_from_iff char_before_def)
  also have "\<dots> \<longleftrightarrow> standalone_use ff a line"
    unfolding standalone_use_def using standalone_match_at_position by blast
  finally show ?thesis .
qed

lemma flagged_of_form:
  "filter (\<lambda>r. snd (snd (snd r)) = ff) (flagged a ff' content) =
     (if ff' = ff then flagged a ff content else [])"
  by (induction content) (auto simp: flagged_def)

lemma flagged_forms:
  "distinct ffs \<Longrightarrow>
   filter (\<lambda>r. snd (snd (snd r)) = ff) (concat (map (\<lambda>f. flagged a f content) ffs)) =
     (if ff \<in> set ffs then flagged a ff content else [])"
  by (induction ffs) (auto simp: flagged_of_form)

lemma dict_get_distinct:
  "list_all (\<lambda>x. distinct (snd x)) d \<Longrightarrow> distinct (dict_get d k)"
proof (cases "map_of d k")
  case None
  then show ?thesis by (simp add: dict_get_def)
next
  case (Some vs)
  assume a: "list_all (\<lambda>x. distinct (snd x)) d"
  from Some have "(k, vs) \<in> set d" by (rule map_of_SomeD)
  with a have "distinct vs" by (auto simp: list_all_iff)
  with Some show ?thesis by (simp add: dict_get_def)
qed

subsection \<open>The candidates stored for a token\<close>

text \<open>
  The candidate long forms that the body lines give for a token, in document order: a
  line contributes when the bracketed token occurs in it and the recoverer yields a
  candidate for it. The set of a token is filled with them one after the other.
\<close>

definition candidates :: "string \<Rightarrow> 'p entry list \<Rightarrow> string list" where
  "candidates acronym content =
     concat (map (\<lambda>(path, line_no, line).
        if 0 < count_occ (bracketed acronym) line
        then (case recover_full_form acronym line of None \<Rightarrow> [] | Some full_form \<Rightarrow> [full_form])
        else []) content)"

lemma set_add_set: "set (set_add xs v) = insert v (set xs)"
  by (auto simp: set_add_def)

lemma set_add_twice: "set_add (set_add xs v) v = set_add xs v"
  by (simp add: set_add_def)

lemma foldl_set_add_set: "set (foldl set_add xs ys) = set xs \<union> set ys"
  by (induction ys arbitrary: xs) (auto simp: set_add_set)

lemma foldl_set_add_distinct: "distinct xs \<Longrightarrow> distinct (foldl set_add xs ys)"
  by (induction ys arbitrary: xs) (auto simp: set_add_def)

lemma foldl_set_add_Nil: "foldl set_add [] ys = [] \<longleftrightarrow> ys = []"
proof -
  have "set (foldl set_add [] ys) = set ys"
    by (simp add: foldl_set_add_set)
  then show ?thesis
    by (metis set_empty)
qed

lemma findall_member:
  "k \<in> set (paren_findall line) \<longleftrightarrow> bracket_token k \<and> 0 < count_occ (bracketed k) line"
proof (cases "bracket_token k")
  case False
  then show ?thesis using findall_tokens by blast
next
  case True
  have "k \<in> set (paren_findall line) \<longleftrightarrow> filter (\<lambda>m. m = k) (paren_findall line) \<noteq> []"
    by (auto simp: filter_empty_conv)
  also have "\<dots> \<longleftrightarrow> 0 < count_occ (bracketed k) line"
    unfolding findall_count[OF True] by simp
  finally show ?thesis using True by simp
qed

definition add_candidate :: "string list \<Rightarrow> string option \<Rightarrow> string list" where
  "add_candidate xs r = (case r of None \<Rightarrow> xs | Some full_form \<Rightarrow> set_add xs full_form)"

lemma add_candidate_twice: "add_candidate (add_candidate xs r) r = add_candidate xs r"
  by (cases r) (simp_all add: add_candidate_def set_add_twice)

lemma undefined_step_forms:
  assumes "bracket_token m"
  shows "dict_get (snd (undefined_step ds path n line st m)) k =
     (if k = m \<and> \<not> excluded ds k
      then add_candidate (dict_get (snd st) k) (recover_full_form k line)
      else dict_get (snd st) k)"
  using strip_token[OF assms]
  by (auto simp: undefined_step_def Let_def excluded_def dict_get_add add_candidate_def
      split: option.splits)

lemma undefined_steps_forms:
  assumes "\<forall>m \<in> set ms. bracket_token m"
  shows "dict_get (snd (foldl (undefined_step ds path n line) st ms)) k =
     (if k \<in> set ms \<and> \<not> excluded ds k
      then add_candidate (dict_get (snd st) k) (recover_full_form k line)
      else dict_get (snd st) k)"
  using assms
proof (induction ms arbitrary: st)
  case Nil
  show ?case by simp
next
  case (Cons m ms)
  from Cons.prems have b: "bracket_token m" and r: "\<forall>m \<in> set ms. bracket_token m"
    by auto
  have "foldl (undefined_step ds path n line) st (m # ms) =
      foldl (undefined_step ds path n line) (undefined_step ds path n line st m) ms"
    by simp
  then show ?case
    by (simp only: Cons.IH[OF r] undefined_step_forms[OF b])
      (auto simp: add_candidate_twice)
qed

lemma candidates_Cons:
  "candidates k ((path, n, line) # content) =
     (if 0 < count_occ (bracketed k) line
      then (case recover_full_form k line of None \<Rightarrow> [] | Some full_form \<Rightarrow> [full_form])
      else []) @ candidates k content"
  by (simp add: candidates_def)

lemma undefined_loop_forms:
  "dict_get (snd (undefined_loop ds st (path, n, line))) k =
     (if bracket_token k \<and> \<not> excluded ds k
      then foldl set_add (dict_get (snd st) k) (candidates k [(path, n, line)])
      else dict_get (snd st) k)"
proof -
  have t: "\<forall>m \<in> set (paren_findall line). bracket_token m"
    using findall_tokens by blast
  show ?thesis
    by (auto simp: undefined_loop_def undefined_steps_forms[OF t] findall_member
        candidates_def add_candidate_def split: option.splits)
qed

lemma undefined_loops_forms:
  "dict_get (snd (foldl (undefined_loop ds) st content)) k =
     (if bracket_token k \<and> \<not> excluded ds k
      then foldl set_add (dict_get (snd st) k) (candidates k content)
      else dict_get (snd st) k)"
proof (induction content arbitrary: st)
  case Nil
  show ?case by (simp add: candidates_def)
next
  case (Cons e content)
  obtain path n line where e: "e = (path, n, line)" by (cases e)
  have c: "candidates k (e # content) = candidates k [(path, n, line)] @ candidates k content"
    by (simp add: e candidates_def)
  have "foldl (undefined_loop ds) st (e # content) =
      foldl (undefined_loop ds) (undefined_loop ds st e) content"
    by simp
  then show ?case
    by (simp only: Cons.IH c) (simp add: e undefined_loop_forms)
qed

lemma recovered_forms:
  "dict_get (snd (scan_undefined ds content)) k =
     (if bracket_token k \<and> \<not> excluded ds k then foldl set_add [] (candidates k content) else [])"
  by (simp add: scan_undefined_loop undefined_loops_forms)

text \<open>Each token of the recovered-long-form mapping has at least one long form.\<close>

lemma filled_add: "filled d \<Longrightarrow> filled (dict_add d k v)"
  by (induction d) (force simp: filled_def image_iff set_add_def split: if_splits)+

lemma undefined_step_forms_filled:
  "filled (snd st) \<Longrightarrow> filled (snd (undefined_step ds path n line st m))"
  by (auto simp: undefined_step_def Let_def filled_add split: option.splits)

lemma undefined_steps_forms_filled:
  "filled (snd st) \<Longrightarrow> filled (snd (foldl (undefined_step ds path n line) st ms))"
  by (induction ms arbitrary: st) (simp_all add: undefined_step_forms_filled)

lemma undefined_loops_forms_filled:
  "filled (snd st) \<Longrightarrow> filled (snd (foldl (undefined_loop ds) st content))"
  by (induction content arbitrary: st)
    (simp_all add: undefined_loop_def undefined_steps_forms_filled)

lemma scan_undefined_forms_filled: "filled (snd (scan_undefined ds content))"
  unfolding scan_undefined_loop
  by (rule undefined_loops_forms_filled) (simp add: filled_def)

lemma recovered_key:
  "k \<in> fst ` set (snd (scan_undefined ds content)) \<longleftrightarrow>
     bracket_token k \<and> \<not> excluded ds k \<and> candidates k content \<noteq> []"
  unfolding filled_key[OF scan_undefined_forms_filled] recovered_forms
  by (simp add: foldl_set_add_Nil)

subsection \<open>What the occurrence threshold covers\<close>

lemma tagged_member:
  "(a, path, n, line) \<in> set (tagged k occ) \<longleftrightarrow> a = k \<and> (path, n, line) \<in> set occ"
  by (auto simp: tagged_def)

lemma reported_member:
  assumes "distinct (map fst d)"
  shows "(k, path, n, line) \<in> set (report_repeated d) \<longleftrightarrow>
     2 \<le> length (dict_get d k) \<and> (path, n, line) \<in> set (dict_get d k)"
proof -
  have "(k, path, n, line) \<in> set (report_repeated d) \<longleftrightarrow>
      (k, path, n, line) \<in> set (of_token k (report_repeated d))"
    by (simp add: of_token_def)
  also have "\<dots> \<longleftrightarrow> 2 \<le> length (dict_get d k) \<and> (path, n, line) \<in> set (dict_get d k)"
    unfolding report_repeated_of_token[OF assms] by (simp add: tagged_member)
  finally show ?thesis .
qed

lemma flagged_Nil:
  "flagged a ff content = [] \<longleftrightarrow>
     \<not> (\<exists>(path, line_no, line) \<in> set content. standalone_search ff a line)"
  by (auto simp: flagged_def filter_empty_conv)

text \<open>
  Claim C3, amended. The threshold of two body occurrences applies to the undefined-acronym
  list only: a record is in the list exactly when its token is a bracketed token that is
  neither a defined short form nor a Roman numeral, the token occurs at least twice in body
  content, and the record is one of these occurrences. The recovered-long-form mapping and
  the inconsistent-usage mapping are filled while the occurrences are being recorded and
  are not filtered afterwards: the long forms stored for such a token are the candidates
  that its body lines give, from the first occurrence on; the token has an entry in the
  recovered-long-form mapping exactly when there is such a candidate, and an entry in the
  inconsistent-usage mapping exactly when one of the candidates has a standalone use in a
  body line.
\<close>

theorem threshold_scope:
  assumes "\<And>xs. mset (order xs) = mset xs"
  shows
   "((acronym, path, line_no, line) \<in>
        set (undefined_list (scan_acronyms order entries acronym_defs)) \<longleftrightarrow>
      bracket_token acronym \<and>
      \<not> excluded (map (\<lambda>(key, v). def_short v) acronym_defs) acronym \<and>
      2 \<le> length (token_occurrences acronym (content_from False entries)) \<and>
      (path, line_no, line) \<in> set (token_occurrences acronym (content_from False entries))) \<and>
    dict_get (undefined_full_forms (scan_acronyms order entries acronym_defs)) acronym =
      (if bracket_token acronym \<and>
          \<not> excluded (map (\<lambda>(key, v). def_short v) acronym_defs) acronym
       then foldl set_add [] (candidates acronym (content_from False entries)) else []) \<and>
    (acronym \<in> fst ` set (undefined_full_forms (scan_acronyms order entries acronym_defs)) \<longleftrightarrow>
      bracket_token acronym \<and>
      \<not> excluded (map (\<lambda>(key, v). def_short v) acronym_defs) acronym \<and>
      candidates acronym (content_from False entries) \<noteq> []) \<and>
    (acronym \<in> fst ` set (inconsistent_usage (scan_acronyms order entries acronym_defs)) \<longleftrightarrow>
      bracket_token acronym \<and>
      \<not> excluded (map (\<lambda>(key, v). def_short v) acronym_defs) acronym \<and>
      (\<exists>full_form \<in> set (candidates acronym (content_from False entries)).
         \<exists>(path, line_no, line) \<in> set (content_from False entries).
           standalone_use full_form acronym line))"
proof -
  let ?ds = "map (\<lambda>(key, v). def_short v) acronym_defs"
  let ?content = "content_from False entries"
  let ?found = "scan_undefined ?ds ?content"
  let ?ok = "bracket_token acronym \<and> \<not> excluded ?ds acronym"
  have u: "undefined_list (scan_acronyms order entries acronym_defs) = report_repeated (fst ?found)"
    and r: "undefined_full_forms (scan_acronyms order entries acronym_defs) = snd ?found"
    and i: "inconsistent_usage (scan_acronyms order entries acronym_defs) =
      scan_inconsistent order ?content (snd ?found)"
    by (simp_all add: scan_acronyms_def Let_def)
  have g: "dict_get (fst ?found) acronym =
      (if ?ok then token_occurrences acronym ?content else [])"
    by (rule recorded_occurrences)
  have f: "dict_get (snd ?found) acronym =
      (if ?ok then foldl set_add [] (candidates acronym ?content) else [])"
    by (rule recovered_forms)
  have a: "(acronym, path, line_no, line) \<in> set (report_repeated (fst ?found)) \<longleftrightarrow>
      ?ok \<and> 2 \<le> length (token_occurrences acronym ?content) \<and>
      (path, line_no, line) \<in> set (token_occurrences acronym ?content)"
    unfolding reported_member[OF scan_undefined_keys(1)] g by simp
  have b: "acronym \<in> fst ` set (snd ?found) \<longleftrightarrow> ?ok \<and> candidates acronym ?content \<noteq> []"
    by (simp add: recovered_key)
  have ok: "recovered_ok ?found"
    by (rule scan_undefined_recovered)
  then have k: "distinct (map fst (snd ?found))"
    by (simp add: recovered_ok_def)
  have n: "order [] = []"
    using assms[of "[]"] by simp
  have p: "set (order ys) = set ys" for ys
    using assms by (rule mset_eq_setD)
  have s: "set (order (dict_get (snd ?found) acronym)) =
      (if ?ok then set (candidates acronym ?content) else {})"
    unfolding p f by (simp add: foldl_set_add_set)
  have e: "standalone_search = standalone_use"
    by (intro ext) (rule standalone_search_use)
  have "acronym \<in> fst ` set (scan_inconsistent order ?content (snd ?found)) \<longleftrightarrow>
      dict_get (scan_inconsistent order ?content (snd ?found)) acronym \<noteq> []"
    by (rule filled_key[OF scan_inconsistent_filled])
  also have "\<dots> \<longleftrightarrow>
      (\<exists>ff \<in> set (order (dict_get (snd ?found) acronym)). flagged acronym ff ?content \<noteq> [])"
    unfolding scan_inconsistent_get[where order = order, OF k n] by auto
  also have "\<dots> \<longleftrightarrow> ?ok \<and>
      (\<exists>ff \<in> set (candidates acronym ?content).
         \<exists>(path, line_no, line) \<in> set ?content. standalone_use ff acronym line)"
    unfolding s flagged_Nil e by auto
  finally have c: "acronym \<in> fst ` set (scan_inconsistent order ?content (snd ?found)) \<longleftrightarrow>
      ?ok \<and> (\<exists>ff \<in> set (candidates acronym ?content).
         \<exists>(path, line_no, line) \<in> set ?content. standalone_use ff acronym line)" .
  show ?thesis
    unfolding u r i using a f b c by blast
qed

definition single_use :: "nat entry list" where
  "single_use =
     [(0, 1, begin_document),
      (0, 2, ''we use a Variational Autoencoder (VAE) here''),
      (0, 3, ''the variational autoencoder works'')]"

text \<open>
  Claim C3, as stated, fails: the token \<open>VAE\<close> occurs once in the body, is absent from the
  undefined-acronym list, and still has an entry in the recovered-long-form mapping and
  one in the inconsistent-usage mapping.
\<close>

theorem single_occurrence_counterexample:
  "length (token_occurrences ''VAE'' (content_from False single_use)) = 1 \<and>
   undefined_list (scan_acronyms as_inserted single_use []) = [] \<and>
   undefined_full_forms (scan_acronyms as_inserted single_use []) =
     [(''VAE'', [''Variational Autoencoder''])] \<and>
   inconsistent_usage (scan_acronyms as_inserted single_use []) =
     [(''VAE'', [(0, 3, ''the variational autoencoder works'', ''Variational Autoencoder'')])]"
  by code_simp

theorem threshold_scope_witness:
  "(''WM'', 0, 3, ''a World Model (WM) or (WM)'')
     \<in> set (undefined_list (scan_acronyms as_inserted noise_entries [])) \<and>
   (''AB'', 0, 4, ''once (AB) only'')
     \<notin> set (undefined_list (scan_acronyms as_inserted noise_entries [])) \<and>
   dict_get (undefined_full_forms (scan_acronyms as_inserted single_use [])) ''VAE'' =
     [''Variational Autoencoder''] \<and>
   ''VAE'' \<in> fst ` set (undefined_full_forms (scan_acronyms as_inserted single_use [])) \<and>
   (\<exists>full_form \<in> set (candidates ''VAE'' (content_from False single_use)).
      \<exists>(path, line_no, line) \<in> set (content_from False single_use).
        standalone_use full_form ''VAE'' line)"
proof -
  have p: "mset (as_inserted xs) = mset xs" for xs
    by (simp add: as_inserted_def)
  note wm = threshold_scope[of as_inserted "''WM''" 0 3 "''a World Model (WM) or (WM)''"
      noise_entries "[]", OF p]
  note ab = threshold_scope[of as_inserted "''AB''" 0 4 "''once (AB) only''"
      noise_entries "[]", OF p]
  note vae = threshold_scope[of as_inserted "''VAE''" 0 0 "[]" single_use "[]", OF p]
  have "bracket_token ''WM'' \<and>
      \<not> excluded (map (\<lambda>(key, v). def_short v) ([] :: (string \<times> nat acronym_def) list)) ''WM'' \<and>
      2 \<le> length (token_occurrences ''WM'' (content_from False noise_entries)) \<and>
      (0, 3, ''a World Model (WM) or (WM)'')
        \<in> set (token_occurrences ''WM'' (content_from False noise_entries))"
    by code_simp
  with wm have 1: "(''WM'', 0, 3, ''a World Model (WM) or (WM)'')
     \<in> set (undefined_list (scan_acronyms as_inserted noise_entries []))"
    by blast
  have "\<not> 2 \<le> length (token_occurrences ''AB'' (content_from False noise_entries))"
    by code_simp
  with ab have 2: "(''AB'', 0, 4, ''once (AB) only'')
     \<notin> set (undefined_list (scan_acronyms as_inserted noise_entries []))"
    by blast
  have c: "bracket_token ''VAE'' \<and>
      \<not> excluded (map (\<lambda>(key, v). def_short v) ([] :: (string \<times> nat acronym_def) list)) ''VAE'' \<and>
      candidates ''VAE'' (content_from False single_use) \<noteq> []"
    by code_simp
  with vae have 3: "''VAE'' \<in>
      fst ` set (undefined_full_forms (scan_acronyms as_inserted single_use []))"
    by blast
  have "(if bracket_token ''VAE'' \<and>
          \<not> excluded (map (\<lambda>(key, v). def_short v) ([] :: (string \<times> nat acronym_def) list)) ''VAE''
       then foldl set_add [] (candidates ''VAE'' (content_from False single_use)) else []) =
      [''Variational Autoencoder'']"
    by code_simp
  with vae have 4: "dict_get (undefined_full_forms (scan_acronyms as_inserted single_use []))
      ''VAE'' = [''Variational Autoencoder'']"
    by simp
  have "''VAE'' \<in> fst ` set (inconsistent_usage (scan_acronyms as_inserted single_use []))"
    by code_simp
  with vae have 5: "\<exists>full_form \<in> set (candidates ''VAE'' (content_from False single_use)).
      \<exists>(path, line_no, line) \<in> set (content_from False single_use).
        standalone_use full_form ''VAE'' line"
    by blast
  from 1 2 3 4 5 show ?thesis by blast
qed

subsection \<open>The lines flagged for a long form\<close>

text \<open>The positions of a line at which the pattern of line 170 matches.\<close>

definition standalone_positions :: "string \<Rightarrow> string \<Rightarrow> string \<Rightarrow> nat list" where
  "standalone_positions full_form acronym line =
     filter (\<lambda>i. standalone_match_at full_form acronym (char_before line i) (drop i line))
       [0..<Suc (length line)]"

lemma standalone_positions_iff:
  "i \<in> set (standalone_positions full_form acronym line) \<longleftrightarrow>
     i \<le> length line \<and> long_form_at full_form line i \<and>
     \<not> token_follows acronym line (i + length full_form)"
  unfolding standalone_positions_def
  using standalone_match_at_position[of i line full_form acronym]
  by (auto simp del: upt_Suc simp: less_Suc_eq_le)

text \<open>
  Claim C4, as stated, fails: a body line with two occurrences of the long form that the
  token does not follow, at the positions 2 and 32, is flagged once, not once for each
  occurrence.
\<close>

theorem flagged_once_counterexample:
  "standalone_positions ''Variational Autoencoder'' ''VAE''
     ''a Variational Autoencoder and a variational autoencoder'' = [2, 32] \<and>
   dict_get (inconsistent_usage (scan_acronyms as_inserted
      [(0 :: nat, 1, begin_document),
       (0, 2, ''Variational Autoencoder (VAE)''),
       (0, 3, ''a Variational Autoencoder and a variational autoencoder'')] [])) ''VAE'' =
     [(0, 3, ''a Variational Autoencoder and a variational autoencoder'',
       ''Variational Autoencoder'')]"
  by code_simp

text \<open>
  Claim C4, amended. The inconsistent-usage records of a token are, for each of its
  recovered long forms in the order in which the set of long forms is iterated, the body
  records whose text holds a standalone use of the long form, in document order, each
  once and with its trimmed text: the long form occurs in the line, compared up to case
  and between word boundaries, at some position where the bracketed token does not follow
  it. The token counts as following when only white space separates it from the long
  form, and it is compared up to case, as the whole pattern is. So for one recovered long
  form the records that carry it are exactly the body lines with at least one such
  occurrence.
\<close>

theorem inconsistency_detection:
  assumes "\<And>xs. mset (order xs) = mset xs"
  shows "dict_get (inconsistent_usage (scan_acronyms order entries acronym_defs)) acronym =
           concat (map (\<lambda>full_form.
              map (\<lambda>(path, line_no, line). (path, line_no, str_strip line, full_form))
                (filter (\<lambda>(path, line_no, line). standalone_use full_form acronym line)
                   (content_from False entries)))
             (order (dict_get
                (undefined_full_forms (scan_acronyms order entries acronym_defs)) acronym))) \<and>
         (full_form \<in>
            set (dict_get (undefined_full_forms (scan_acronyms order entries acronym_defs)) acronym)
          \<longrightarrow>
          filter (\<lambda>r. snd (snd (snd r)) = full_form)
            (dict_get (inconsistent_usage (scan_acronyms order entries acronym_defs)) acronym) =
          map (\<lambda>(path, line_no, line). (path, line_no, str_strip line, full_form))
            (filter (\<lambda>(path, line_no, line). standalone_use full_form acronym line)
               (content_from False entries)))"
proof -
  let ?ds = "map (\<lambda>(key, v). def_short v) acronym_defs"
  let ?content = "content_from False entries"
  let ?found = "scan_undefined ?ds ?content"
  have r: "undefined_full_forms (scan_acronyms order entries acronym_defs) = snd ?found"
    and i: "inconsistent_usage (scan_acronyms order entries acronym_defs) =
      scan_inconsistent order ?content (snd ?found)"
    by (simp_all add: scan_acronyms_def Let_def)
  have ok: "recovered_ok ?found"
    by (rule scan_undefined_recovered)
  then have k: "distinct (map fst (snd ?found))"
    and v: "distinct (dict_get (snd ?found) acronym)"
    by (simp_all add: recovered_ok_def dict_get_distinct)
  have n: "order [] = []"
    using assms[of "[]"] by simp
  have p: "set (order ys) = set ys" for ys
    using assms by (rule mset_eq_setD)
  have "distinct (order (dict_get (snd ?found) acronym))"
    using v assms mset_eq_imp_distinct_iff by blast
  note d = flagged_forms[OF this]
  have e: "standalone_search = standalone_use"
    by (intro ext) (rule standalone_search_use)
  have g: "dict_get (scan_inconsistent order ?content (snd ?found)) acronym =
      concat (map (\<lambda>ff. flagged acronym ff ?content) (order (dict_get (snd ?found) acronym)))"
    by (rule scan_inconsistent_get[where order = order, OF k n])
  have "filter (\<lambda>r. snd (snd (snd r)) = full_form)
      (dict_get (scan_inconsistent order ?content (snd ?found)) acronym) =
      flagged acronym full_form ?content"
    if "full_form \<in> set (dict_get (snd ?found) acronym)"
    using that unfolding g by (simp add: d p)
  with g show ?thesis
    unfolding i r flagged_def e by blast
qed

definition vae_entries :: "nat entry list" where
  "vae_entries =
     [(0, 1, begin_document),
      (0, 2, ''Variational Autoencoder (VAE)''),
      (0, 3, ''a Variational Autoencoder is used''),
      (0, 4, ''the VARIATIONAL AUTOENCODER  (vae) again''),
      (0, 5, ''Variational Autoencoders differ'')]"

theorem inconsistency_detection_witness:
  "dict_get (inconsistent_usage (scan_acronyms as_inserted vae_entries [])) ''VAE'' =
     [(0, 3, ''a Variational Autoencoder is used'', ''Variational Autoencoder'')] \<and>
   map (\<lambda>(path, line_no, line). (path, line_no, str_strip line, ''Variational Autoencoder''))
     (filter (\<lambda>(path, line_no, line). standalone_use ''Variational Autoencoder'' ''VAE'' line)
        (content_from False vae_entries)) =
     [(0, 3, ''a Variational Autoencoder is used'', ''Variational Autoencoder'')]"
proof -
  have p: "mset (as_inserted xs) = mset xs" for xs
    by (simp add: as_inserted_def)
  have h: "''Variational Autoencoder'' \<in>
      set (dict_get (undefined_full_forms (scan_acronyms as_inserted vae_entries [])) ''VAE'')"
    by code_simp
  have g: "dict_get (inconsistent_usage (scan_acronyms as_inserted vae_entries [])) ''VAE'' =
     [(0, 3, ''a Variational Autoencoder is used'', ''Variational Autoencoder'')]"
    by code_simp
  from inconsistency_detection[of as_inserted vae_entries "[]" "''VAE''"
      "''Variational Autoencoder''", OF p] h
  have "filter (\<lambda>r. snd (snd (snd r)) = ''Variational Autoencoder'')
       (dict_get (inconsistent_usage (scan_acronyms as_inserted vae_entries [])) ''VAE'') =
     map (\<lambda>(path, line_no, line). (path, line_no, str_strip line, ''Variational Autoencoder''))
     (filter (\<lambda>(path, line_no, line). standalone_use ''Variational Autoencoder'' ''VAE'' line)
        (content_from False vae_entries))"
    by blast
  then have "map (\<lambda>(path, line_no, line). (path, line_no, str_strip line, ''Variational Autoencoder''))
     (filter (\<lambda>(path, line_no, line). standalone_use ''Variational Autoencoder'' ''VAE'' line)
        (content_from False vae_entries)) =
     [(0, 3, ''a Variational Autoencoder is used'', ''Variational Autoencoder'')]"
    unfolding g by simp
  with g show ?thesis by simp
qed

subsection \<open>Two runs on one document tree\<close>

lemma mset_concat_map:
  "mset xs = mset ys \<Longrightarrow> mset (concat (map f xs)) = mset (concat (map f ys))"
proof -
  assume a: "mset xs = mset ys"
  have "mset (concat (map f zs)) = sum_mset (image_mset (\<lambda>x. mset (f x)) (mset zs))" for zs
    by (induction zs) simp_all
  with a show ?thesis by simp
qed

lemma scan_inconsistent_orders:
  assumes o: "\<And>xs. mset (order xs) = mset xs" and o': "\<And>xs. mset (order' xs) = mset xs"
    and k: "distinct (map fst recovered)"
    and v: "list_all (\<lambda>x. distinct (snd x)) recovered"
  shows "map fst (scan_inconsistent order' content recovered) =
           map fst (scan_inconsistent order content recovered)"
    and "mset (dict_get (scan_inconsistent order' content recovered) a) =
           mset (dict_get (scan_inconsistent order content recovered) a)"
    and "filter (\<lambda>r. snd (snd (snd r)) = ff) (dict_get (scan_inconsistent order' content recovered) a) =
           filter (\<lambda>r. snd (snd (snd r)) = ff) (dict_get (scan_inconsistent order content recovered) a)"
proof -
  have s: "set (order xs) = set xs" "set (order' xs) = set xs" for xs
    by (rule mset_eq_setD, rule o, rule mset_eq_setD, rule o')
  have n: "order [] = []" "order' [] = []"
    using o[of "[]"] o'[of "[]"] by simp_all
  let ?ffs = "dict_get recovered a"
  have g: "dict_get (scan_inconsistent order content recovered) a =
      concat (map (\<lambda>ff. flagged a ff content) (order ?ffs))"
    by (rule scan_inconsistent_get[where order = order, OF k n(1)])
  have g': "dict_get (scan_inconsistent order' content recovered) a =
      concat (map (\<lambda>ff. flagged a ff content) (order' ?ffs))"
    by (rule scan_inconsistent_get[where order = order', OF k n(2)])
  show "map fst (scan_inconsistent order' content recovered) =
      map fst (scan_inconsistent order content recovered)"
    by (rule scan_inconsistent_keys) (rule s)+
  have "mset (order' ?ffs) = mset (order ?ffs)"
    by (simp add: o o')
  then show "mset (dict_get (scan_inconsistent order' content recovered) a) =
      mset (dict_get (scan_inconsistent order content recovered) a)"
    unfolding g g' by (rule mset_concat_map)
  have d: "distinct ?ffs"
    using v by (rule dict_get_distinct)
  have "distinct (order ?ffs)" "distinct (order' ?ffs)"
    using d o o' mset_eq_imp_distinct_iff by blast+
  then show "filter (\<lambda>r. snd (snd (snd r)) = ff)
        (dict_get (scan_inconsistent order' content recovered) a) =
      filter (\<lambda>r. snd (snd (snd r)) = ff) (dict_get (scan_inconsistent order content recovered) a)"
    unfolding g g' by (simp add: flagged_forms s)
qed

text \<open>A visited set kept from an earlier run would change the result: the entry file
  would count as seen and the second run would load nothing.\<close>

lemma kept_visited_set_skips:
  "resolve filename \<in> visited \<Longrightarrow>
   read_latex_recursive resolve fs filename (Some visited) = Inr ([], visited)"
  by (simp add: seen_of_def)

text \<open>The inconsistent-usage records that a run gives for a token.\<close>

definition inconsistent_of ::
  "error + ((string \<times> 'p acronym_def) list \<times> 'p report) \<Rightarrow> string \<Rightarrow>
   ('p \<times> nat \<times> string \<times> string) list" where
  "inconsistent_of result acronym =
     (case result of
        Inl e \<Rightarrow> []
      | Inr (acronym_defs, report) \<Rightarrow> dict_get (inconsistent_usage report) acronym)"

definition two_forms_tree :: "(string \<times> file_content) list" where
  "two_forms_tree =
     [(''main.tex'', Readable
         [begin_document @ [newline],
          ''a World Model (WM) is learned'' @ [newline],
          ''the planner has a Wide Model (WM) too'' @ [newline],
          ''both the world model and the wide model are used'' @ [newline]])]"

text \<open>
  Claim C9, as stated, fails. The token \<open>WM\<close> has two recovered long forms, kept in a
  Python set, and line 167 of the source iterates that set. Two runs of the analysis are
  two interpreter processes, whose string hashes differ, so the set can be iterated in
  either order: the two runs list the inconsistent usages of the token in different
  orders.
\<close>

theorem iteration_order_counterexample:
  "inconsistent_of (main as_inserted (\<lambda>f. f) two_forms_tree) ''WM'' =
     [(''main.tex'', 4, ''both the world model and the wide model are used'', ''World Model''),
      (''main.tex'', 4, ''both the world model and the wide model are used'', ''Wide Model'')] \<and>
   inconsistent_of (main latest_first (\<lambda>f. f) two_forms_tree) ''WM'' =
     [(''main.tex'', 4, ''both the world model and the wide model are used'', ''Wide Model''),
      (''main.tex'', 4, ''both the world model and the wide model are used'', ''World Model'')] \<and>
   main as_inserted (\<lambda>f. f) two_forms_tree \<noteq> main latest_first (\<lambda>f. f) two_forms_tree"
proof -
  have a: "inconsistent_of (main as_inserted (\<lambda>f. f) two_forms_tree) ''WM'' =
     [(''main.tex'', 4, ''both the world model and the wide model are used'', ''World Model''),
      (''main.tex'', 4, ''both the world model and the wide model are used'', ''Wide Model'')]"
    by code_simp
  have b: "inconsistent_of (main latest_first (\<lambda>f. f) two_forms_tree) ''WM'' =
     [(''main.tex'', 4, ''both the world model and the wide model are used'', ''Wide Model''),
      (''main.tex'', 4, ''both the world model and the wide model are used'', ''World Model'')]"
    by code_simp
  have "inconsistent_of (main as_inserted (\<lambda>f. f) two_forms_tree) ''WM'' \<noteq>
      inconsistent_of (main latest_first (\<lambda>f. f) two_forms_tree) ''WM''"
    unfolding a b by simp
  then have "main as_inserted (\<lambda>f. f) two_forms_tree \<noteq> main latest_first (\<lambda>f. f) two_forms_tree"
    by auto
  with a b show ?thesis by simp
qed

text \<open>
  Claim C9, amended. A run is a function of the document tree and of the order in which
  the process iterates a set of strings; each run starts the loader without a visited
  set, which is the same as an empty one, and nothing of an earlier run is passed on. Two
  runs on an unchanged tree, each with its own iteration order, end in the same way: both
  raise, or both return the same definitions, the same usage collections, the same
  undefined-acronym list and the same recovered long forms. Their inconsistent-usage
  mappings have the same tokens in the same order, and for each token the same records,
  each as often, with the records of one long form in the same order; only the order in
  which the long forms of a token follow one another can differ.
\<close>

theorem analysis_deterministic:
  assumes "\<And>xs. mset (order xs) = mset xs" and "\<And>xs. mset (order' xs) = mset xs"
  shows "(case main order resolve fs of
            Inl e \<Rightarrow> main order' resolve fs = Inl e
          | Inr (acronym_defs, report) \<Rightarrow>
              (\<exists>report'. main order' resolve fs = Inr (acronym_defs, report') \<and>
                 used_full report' = used_full report \<and>
                 used_short report' = used_short report \<and>
                 undefined_list report' = undefined_list report \<and>
                 undefined_full_forms report' = undefined_full_forms report \<and>
                 map fst (inconsistent_usage report') = map fst (inconsistent_usage report) \<and>
                 (\<forall>acronym.
                    mset (dict_get (inconsistent_usage report') acronym) =
                    mset (dict_get (inconsistent_usage report) acronym)) \<and>
                 (\<forall>acronym full_form.
                    filter (\<lambda>r. snd (snd (snd r)) = full_form)
                      (dict_get (inconsistent_usage report') acronym) =
                    filter (\<lambda>r. snd (snd (snd r)) = full_form)
                      (dict_get (inconsistent_usage report) acronym)))) \<and>
         read_latex_recursive resolve fs ENTRY_FILE None =
           read_latex_recursive resolve fs ENTRY_FILE (Some {})"
proof -
  have f: "read_latex_recursive resolve fs ENTRY_FILE None =
      read_latex_recursive resolve fs ENTRY_FILE (Some {})"
    by (simp add: seen_of_def)
  have "case main order resolve fs of
            Inl e \<Rightarrow> main order' resolve fs = Inl e
          | Inr (acronym_defs, report) \<Rightarrow>
              (\<exists>report'. main order' resolve fs = Inr (acronym_defs, report') \<and>
                 used_full report' = used_full report \<and>
                 used_short report' = used_short report \<and>
                 undefined_list report' = undefined_list report \<and>
                 undefined_full_forms report' = undefined_full_forms report \<and>
                 map fst (inconsistent_usage report') = map fst (inconsistent_usage report) \<and>
                 (\<forall>acronym.
                    mset (dict_get (inconsistent_usage report') acronym) =
                    mset (dict_get (inconsistent_usage report) acronym)) \<and>
                 (\<forall>acronym full_form.
                    filter (\<lambda>r. snd (snd (snd r)) = full_form)
                      (dict_get (inconsistent_usage report') acronym) =
                    filter (\<lambda>r. snd (snd (snd r)) = full_form)
                      (dict_get (inconsistent_usage report) acronym)))"
  proof (cases "read_latex_recursive resolve fs ENTRY_FILE None")
    case (Inl e)
    then show ?thesis by (simp add: main_def)
  next
    case (Inr b)
    obtain entries seen where b: "b = (entries, seen)" by (cases b)
    let ?defs = "extract_defined_acronyms entries"
    let ?ds = "map (\<lambda>(key, v). def_short v) ?defs"
    let ?content = "content_from False entries"
    let ?found = "scan_undefined ?ds ?content"
    have m: "main order resolve fs = Inr (?defs, scan_acronyms order entries ?defs)"
      "main order' resolve fs = Inr (?defs, scan_acronyms order' entries ?defs)"
      using Inr b by (simp_all add: main_def Let_def)
    have ok: "recovered_ok ?found"
      by (rule scan_undefined_recovered)
    then have k: "distinct (map fst (snd ?found))"
      and v: "list_all (\<lambda>x. distinct (snd x)) (snd ?found)"
      by (simp_all add: recovered_ok_def)
    note so = scan_inconsistent_orders[OF assms k v, where content = ?content]
    have i: "inconsistent_usage (scan_acronyms order entries ?defs) =
        scan_inconsistent order ?content (snd ?found)"
      "inconsistent_usage (scan_acronyms order' entries ?defs) =
        scan_inconsistent order' ?content (snd ?found)"
      by (simp_all add: scan_acronyms_def Let_def)
    have r: "used_full (scan_acronyms order' entries ?defs) =
        used_full (scan_acronyms order entries ?defs)"
      "used_short (scan_acronyms order' entries ?defs) =
        used_short (scan_acronyms order entries ?defs)"
      "undefined_list (scan_acronyms order' entries ?defs) =
        undefined_list (scan_acronyms order entries ?defs)"
      "undefined_full_forms (scan_acronyms order' entries ?defs) =
        undefined_full_forms (scan_acronyms order entries ?defs)"
      by (simp_all add: scan_acronyms_def Let_def)
    show ?thesis
      unfolding m by (simp add: r i so)
  qed
  with f show ?thesis by blast
qed

theorem analysis_deterministic_witness:
  "mset (inconsistent_of (main latest_first (\<lambda>f. f) two_forms_tree) ''WM'') =
     mset (inconsistent_of (main as_inserted (\<lambda>f. f) two_forms_tree) ''WM'') \<and>
   (\<exists>acronym_defs report report'.
      main as_inserted (\<lambda>f. f) two_forms_tree = Inr (acronym_defs, report) \<and>
      main latest_first (\<lambda>f. f) two_forms_tree = Inr (acronym_defs, report') \<and>
      undefined_list report' = undefined_list report \<and>
      undefined_full_forms report' = undefined_full_forms report \<and>
      map fst (inconsistent_usage report') = map fst (inconsistent_usage report))"
proof -
  have p: "mset (as_inserted xs) = mset xs" for xs
    by (simp add: as_inserted_def)
  have q: "mset (latest_first xs) = mset xs" for xs
    by (simp add: latest_first_def)
  have "main as_inserted (\<lambda>f. f) two_forms_tree \<noteq> Inl OSError"
    by code_simp
  then obtain acronym_defs report where
    m: "main as_inserted (\<lambda>f. f) two_forms_tree = Inr (acronym_defs, report)"
    by (cases "main as_inserted (\<lambda>f. f) two_forms_tree") (auto intro: error.exhaust)
  from analysis_deterministic[of as_inserted latest_first "\<lambda>f. f" two_forms_tree, OF p q]
  obtain report' where
    m': "main latest_first (\<lambda>f. f) two_forms_tree = Inr (acronym_defs, report')"
    and u: "undefined_list report' = undefined_list report"
    and f: "undefined_full_forms report' = undefined_full_forms report"
    and k: "map fst (inconsistent_usage report') = map fst (inconsistent_usage report)"
    and s: "\<And>acronym. mset (dict_get (inconsistent_usage report') acronym) =
        mset (dict_get (inconsistent_usage report) acronym)"
    unfolding m by auto
  have "mset (inconsistent_of (main latest_first (\<lambda>f. f) two_forms_tree) ''WM'') =
     mset (inconsistent_of (main as_inserted (\<lambda>f. f) two_forms_tree) ''WM'')"
    unfolding m m' by (simp add: inconsistent_of_def s)
  with m m' u f k show ?thesis by blast
qed

subsection \<open>Definitions are extracted from every record\<close>

lemma map_of_dict_set: "map_of (dict_set d k v) = (map_of d)(k \<mapsto> v)"
  by (induction d) (auto simp: fun_eq_iff)

text \<open>The records whose first \<open>\newacronym\<close> match has the key, and the definition that a
  record gives.\<close>

definition defining_records :: "string \<Rightarrow> 'p entry list \<Rightarrow> 'p entry list" where
  "defining_records key entries =
     filter (\<lambda>(path, line_no, line).
        case newacronym_search line of None \<Rightarrow> False | Some (k, short, full) \<Rightarrow> k = key) entries"

definition definition_in :: "'p entry \<Rightarrow> 'p acronym_def option" where
  "definition_in e =
     (case e of (path, line_no, line) \<Rightarrow>
        (case newacronym_search line of
           None \<Rightarrow> None
         | Some (k, short, full) \<Rightarrow>
             Some \<lparr>def_short = str_strip short, def_full = str_strip full,
                   def_file = path, def_line = line_no\<rparr>))"

lemma defining_records_snoc:
  "defining_records key (es @ [(path, line_no, line)]) =
     defining_records key es @
     (case newacronym_search line of
        None \<Rightarrow> []
      | Some (k, short, full) \<Rightarrow> if k = key then [(path, line_no, line)] else [])"
  by (auto simp: defining_records_def split: option.splits)

lemma foldl_extract_map_of:
  "map_of (foldl extract_step d es) key =
     (if defining_records key es = [] then map_of d key
      else definition_in (last (defining_records key es)))"
proof (induction es rule: rev_induct)
  case Nil
  show ?case by (simp add: defining_records_def)
next
  case (snoc e es)
  obtain path line_no line where e: "e = (path, line_no, line)" by (cases e)
  show ?case
  proof (cases "newacronym_search line")
    case None
    then show ?thesis
      using snoc by (simp add: e extract_step_def defining_records_snoc)
  next
    case (Some g)
    obtain k short full where g: "g = (k, short, full)" by (cases g)
    show ?thesis
      using snoc Some
      by (simp add: e g extract_step_def defining_records_snoc map_of_dict_set definition_in_def)
  qed
qed

subsection \<open>A document without the document-start marker\<close>

lemma content_from_no_marker:
  "\<forall>e \<in> set entries. \<not> str_contains (snd (snd e)) begin_document \<Longrightarrow>
   content_from False entries = []"
  by (induction entries) auto

lemma foldl_keep: "foldl (\<lambda>used (key, data). used) acc ds = acc"
  by (induction ds arbitrary: acc) auto

text \<open>
  Claim C10. When no record contains \<open>\begin{document}\<close>, every collection of the scan
  report is empty, whatever the definitions are. The definitions themselves are taken
  from all records, before or without the marker: a key is defined exactly when some
  record holds a \<open>\newacronym\<close> whose first match in the line has this key, and its
  definition is the one of the last such record: the trimmed short and long forms of the
  match, the file and the line number of the record.
\<close>

theorem scan_without_document_start:
  assumes "\<forall>e \<in> set entries. \<not> str_contains (snd (snd e)) begin_document"
  shows "scan_acronyms order entries acronym_defs =
           \<lparr>used_full = [], used_short = [], undefined_list = [],
            undefined_full_forms = [], inconsistent_usage = []\<rparr> \<and>
         map_of (extract_defined_acronyms entries) key =
           (case rev (defining_records key entries) of
              [] \<Rightarrow> None
            | (path, line_no, line) # earlier \<Rightarrow>
                (case newacronym_search line of
                   None \<Rightarrow> None
                 | Some (k, short, full) \<Rightarrow>
                     Some \<lparr>def_short = str_strip short, def_full = str_strip full,
                           def_file = path, def_line = line_no\<rparr>))"
proof -
  have "content_from False entries = []"
    using assms by (rule content_from_no_marker)
  then have a: "scan_acronyms order entries acronym_defs =
           \<lparr>used_full = [], used_short = [], undefined_list = [],
            undefined_full_forms = [], inconsistent_usage = []\<rparr>"
    by (simp add: scan_acronyms_def scan_usage_def foldl_keep
        scan_undefined_def report_repeated_def scan_inconsistent_def)
  have b: "map_of (extract_defined_acronyms entries) key =
      (if defining_records key entries = [] then None
       else definition_in (last (defining_records key entries)))"
    unfolding extract_defined_acronyms_def by (simp add: foldl_extract_map_of)
  have "map_of (extract_defined_acronyms entries) key =
           (case rev (defining_records key entries) of
              [] \<Rightarrow> None
            | (path, line_no, line) # earlier \<Rightarrow>
                (case newacronym_search line of
                   None \<Rightarrow> None
                 | Some (k, short, full) \<Rightarrow>
                     Some \<lparr>def_short = str_strip short, def_full = str_strip full,
                           def_file = path, def_line = line_no\<rparr>))"
  proof (cases "defining_records key entries" rule: rev_cases)
    case Nil
    with b show ?thesis by simp
  next
    case (snoc ys y)
    with b show ?thesis by (simp add: definition_in_def split: prod.splits)
  qed
  with a show ?thesis by simp
qed

definition preamble_only :: "nat entry list" where
  "preamble_only =
     [(0, 1, backslash # ''newacronym{vae}{VAE}{Variational Autoencoder}''),
      (0, 2, ''a Variational Autoencoder (VAE) and the VAE (VAE)''),
      (0, 3, ''% '' @ backslash # ''newacronym{wm}{ WM }{World Model }''),
      (0, 4, backslash # ''newacronym{vae}{VAE}{Variational Auto-Encoder} again'')]"

theorem scan_without_document_start_witness:
  "scan_acronyms as_inserted preamble_only (extract_defined_acronyms preamble_only) =
     \<lparr>used_full = [], used_short = [], undefined_list = [],
      undefined_full_forms = [], inconsistent_usage = []\<rparr> \<and>
   map_of (extract_defined_acronyms preamble_only) ''vae'' =
     Some \<lparr>def_short = ''VAE'', def_full = ''Variational Auto-Encoder'',
           def_file = 0, def_line = 4\<rparr> \<and>
   map_of (extract_defined_acronyms preamble_only) ''wm'' =
     Some \<lparr>def_short = ''WM'', def_full = ''World Model'', def_file = 0, def_line = 3\<rparr> \<and>
   map_of (extract_defined_acronyms preamble_only) ''VAE'' = None"
proof -
  have h: "\<forall>e \<in> set preamble_only. \<not> str_contains (snd (snd e)) begin_document"
    by code_simp
  note t = scan_without_document_start[OF h, of as_inserted "extract_defined_acronyms preamble_only"]
  have 1: "(case rev (defining_records ''vae'' preamble_only) of
              [] \<Rightarrow> None
            | (path, line_no, line) # earlier \<Rightarrow>
                (case newacronym_search line of
                   None \<Rightarrow> None
                 | Some (k, short, full) \<Rightarrow>
                     Some \<lparr>def_short = str_strip short, def_full = str_strip full,
                           def_file = path, def_line = line_no\<rparr>)) =
     Some \<lparr>def_short = ''VAE'', def_full = ''Variational Auto-Encoder'',
           def_file = 0, def_line = 4\<rparr>"
    by code_simp
  have 2: "(case rev (defining_records ''wm'' preamble_only) of
              [] \<Rightarrow> None
            | (path, line_no, line) # earlier \<Rightarrow>
                (case newacronym_search line of
                   None \<Rightarrow> None
                 | Some (k, short, full) \<Rightarrow>
                     Some \<lparr>def_short = str_strip short, def_full = str_strip full,
                           def_file = path, def_line = line_no\<rparr>)) =
     Some \<lparr>def_short = ''WM'', def_full = ''World Model'', def_file = 0, def_line = 3\<rparr>"
    by code_simp
  have 3: "(case rev (defining_records ''VAE'' preamble_only) of
              [] \<Rightarrow> None
            | (path, line_no, line) # earlier \<Rightarrow>
                (case newacronym_search line of
                   None \<Rightarrow> None
                 | Some (k, short, full) \<Rightarrow>
                     Some \<lparr>def_short = str_strip short, def_full = str_strip full,
                           def_file = (path :: nat), def_line = line_no\<rparr>)) = None"
    by code_simp
  from t[of "''vae''"] t[of "''wm''"] t[of "''VAE''"] show ?thesis
    unfolding 1 2 3 by simp
qed

subsection \<open>The recoverer\<close>

lemma collect_words_takeWhile: "collect_words ws = takeWhile includable ws"
  by (induction ws) auto

lemma last_five: "rev (drop (length ws - 5) ws) = take 5 (rev ws)"
proof -
  have "rev (drop (length ws - 5) ws) = take (length ws - (length ws - 5)) (rev ws)"
    by (rule rev_drop)
  also have "\<dots> = take 5 (rev ws)"
    by (cases "5 \<le> length ws") simp_all
  finally show ?thesis .
qed

lemma takeWhile_take_length: "length (takeWhile P (take n xs)) \<le> n"
proof -
  have "length (takeWhile P (take n xs)) \<le> length (take n xs)"
    by (rule length_takeWhile_le)
  then show ?thesis by simp
qed

definition line_AIT :: string where
  "line_AIT = ''...the Austrian Institute of Technology (AIT) developed...''"

definition sentence_AIT :: string where
  "sentence_AIT =
     ''Researchers at the Austrian Institute of Technology (AIT) developed a method.''"

text \<open>
  Claim C1. The recoverer looks at the text before the first bracketed token of the line,
  takes its last five words, and walks them from the word nearest to the token: the
  candidate is the longest run of words that are capitalised or connectors, in the order
  of the line, and it is kept when one of its words is capitalised. On the line of the
  claim as it is written, whose first word is \<open>...the\<close>, the candidate is
  \<open>Austrian Institute of Technology\<close>. When \<open>the\<close> stands as a word of its own, as in a
  sentence about the institute, the walk takes the connector too and the candidate stored
  for the token is \<open>the Austrian Institute of Technology\<close>, with the preceding context
  that the comment at line 118 of the source rules out.
\<close>

theorem recovery_validity_AIT:
  "recover_full_form acronym line =
     (case str_find line (''('' @ acronym @ '')'') of
        None \<Rightarrow> None
      | Some start \<Rightarrow>
          (let run = takeWhile includable
                       (take 5 (rev (str_split (str_strip (take start line)))))
           in if list_ex starts_upper run then Some (join_space (rev run)) else None)) \<and>
   recover_full_form ''AIT'' line_AIT = Some ''Austrian Institute of Technology'' \<and>
   recover_full_form ''AIT'' sentence_AIT = Some ''the Austrian Institute of Technology'' \<and>
   undefined_full_forms
     (scan_acronyms as_inserted [(p, 1, begin_document), (p, 2, sentence_AIT)] []) =
     [(''AIT'', [''the Austrian Institute of Technology''])]"
proof -
  have g: "recover_full_form acronym line =
     (case str_find line (''('' @ acronym @ '')'') of
        None \<Rightarrow> None
      | Some start \<Rightarrow>
          (let run = takeWhile includable
                       (take 5 (rev (str_split (str_strip (take start line)))))
           in if list_ex starts_upper run then Some (join_space (rev run)) else None))"
  proof (cases "str_find line (''('' @ acronym @ '')'')")
    case None
    then show ?thesis by (simp add: recover_full_form_def)
  next
    case (Some start)
    let ?words = "str_split (str_strip (take start line))"
    let ?run = "takeWhile includable (take 5 (rev ?words))"
    have l: "length ?run \<le> 6"
      using takeWhile_take_length[of includable 5 "rev ?words"] by simp
    have c: "filter starts_upper ?run \<noteq> [] \<longleftrightarrow> list_ex starts_upper ?run"
      by (simp add: filter_empty_conv list_ex_iff)
    have e: "list_ex starts_upper ?run \<Longrightarrow> ?run \<noteq> []"
      by auto
    have w: "?words = [] \<Longrightarrow> ?run = []"
      by simp
    show ?thesis
      unfolding recover_full_form_def Some option.case Let_def collect_words_takeWhile last_five
      using l c e w by auto
  qed
  have a: "recover_full_form ''AIT'' line_AIT = Some ''Austrian Institute of Technology''"
    by code_simp
  have b: "recover_full_form ''AIT'' sentence_AIT = Some ''the Austrian Institute of Technology''"
    by code_simp
  have d: "undefined_full_forms
     (scan_acronyms as_inserted [(p, 1, begin_document), (p, 2, sentence_AIT)] []) =
     [(''AIT'', [''the Austrian Institute of Technology''])]"
    by code_simp
  from g a b d show ?thesis by (simp only: simp_thms)
qed

section \<open>Properties of the sentence extractor\<close>

lemma dropWhile_keeps: "c \<in> set xs \<Longrightarrow> \<not> P c \<Longrightarrow> c \<in> set (dropWhile P xs)"
  by (induction xs) auto

lemma strip_nonempty_iff: "str_strip s \<noteq> [] \<longleftrightarrow> (\<exists>c \<in> set s. \<not> isspace c)"
proof
  assume "str_strip s \<noteq> []"
  then have "dropWhile isspace s \<noteq> []"
    by (auto simp: str_strip_def dest: set_dropWhileD)
  then show "\<exists>c \<in> set s. \<not> isspace c"
    by (auto simp: dropWhile_eq_Nil_conv dest: set_dropWhileD)
next
  assume "\<exists>c \<in> set s. \<not> isspace c"
  then obtain c where c: "c \<in> set s" "\<not> isspace c"
    by blast
  then have "c \<in> set (rev (dropWhile isspace s))"
    by (simp add: dropWhile_keeps)
  with c(2) have "c \<in> set (dropWhile isspace (rev (dropWhile isspace s)))"
    by (rule dropWhile_keeps[rotated])
  then have "dropWhile isspace (rev (dropWhile isspace s)) \<noteq> []"
    by (metis empty_iff empty_set)
  then show "str_strip s \<noteq> []"
    unfolding str_strip_def by (simp only: rev_is_Nil_conv not_False_eq_True)
qed

lemma str_find_Some:
  "str_find line sub = Some pos \<Longrightarrow> pos \<le> length line \<and> prefix sub (drop pos line)"
proof (induction line arbitrary: pos)
  case Nil
  then show ?case by (simp split: if_splits)
next
  case (Cons c cs)
  show ?case
  proof (cases "prefix sub (c # cs)")
    case True
    with Cons.prems show ?thesis by simp
  next
    case False
    with Cons.prems obtain p where p: "str_find cs sub = Some p" "pos = Suc p"
      by auto
    with Cons.IH[OF p(1)] show ?thesis by simp
  qed
qed

text \<open>The fallback window holds the first character of a target that was found.\<close>

lemma window_nonempty:
  assumes "str_find text target = Some pos" and "target \<noteq> []" and "\<not> isspace (hd target)"
  shows "str_strip (slice text (pos - 150) (min (length text) (pos + 200))) \<noteq> []"
proof -
  from str_find_Some[OF assms(1)] have p: "prefix target (drop pos text)"
    by simp
  with assms(2) obtain r where d: "drop pos text = hd target # r"
    by (cases target) (auto simp: prefix_def)
  then have l: "pos < length text"
    by (cases "pos < length text") auto
  with d have h: "text ! pos = hd target"
    by (metis nth_via_drop)
  let ?a = "pos - 150" and ?b = "min (length text) (pos + 200)"
  have "slice text ?a ?b ! (pos - ?a) = text ! pos"
    using l by (simp add: slice_def)
  moreover have "pos - ?a < length (slice text ?a ?b)"
    using l by (auto simp: slice_def)
  ultimately have "hd target \<in> set (slice text ?a ?b)"
    using h by (metis nth_mem)
  with assms(3) show ?thesis
    unfolding strip_nonempty_iff by blast
qed

lemma strip_blank: "\<forall>c \<in> set s. isspace c \<Longrightarrow> str_strip s = []"
  using strip_nonempty_iff[of s] by blast

lemma slice_subset: "set (slice s a b) \<subseteq> set s"
proof -
  have "set (take (b - a) (drop a s)) \<subseteq> set (drop a s)"
    by (rule set_take_subset)
  also have "\<dots> \<subseteq> set s"
    by (rule set_drop_subset)
  finally show ?thesis by (simp add: slice_def)
qed

lemma strip_slice_blank: "\<forall>c \<in> set s. isspace c \<Longrightarrow> str_strip (slice s a b) = []"
  using slice_subset[of s a b] by (intro strip_blank) blast

text \<open>
  Claim C8, as stated, fails: an empty line, a line of blanks searched for a blank, and a
  line that is one no-break space searched for itself give the empty string.
\<close>

theorem extraction_empty_counterexample:
  "extract_sentence_containing_text [] ''(VAE)'' = [] \<and>
   extract_sentence_containing_text ''   '' '' '' = [] \<and>
   extract_sentence_containing_text [CHR 0xA0] [CHR 0xA0] = []"
  by code_simp

text \<open>
  Claim C8, amended. When the target is not found, the extractor returns the trimmed line,
  which is not empty exactly when the line has a character that is not white space.
  When the target is found and begins with a character that is not white space, the
  result is not empty: it is a sentence of at least 20 characters or the fallback
  window, which holds the first character of the target. A line without a character
  other than white space gives the empty string, whatever the target is.
\<close>

theorem extraction_nonempty:
  "(str_find text target_text = None \<longrightarrow>
      extract_sentence_containing_text text target_text = str_strip text \<and>
      (extract_sentence_containing_text text target_text \<noteq> [] \<longleftrightarrow>
         (\<exists>c \<in> set text. \<not> isspace c))) \<and>
   (str_find text target_text \<noteq> None \<and> target_text \<noteq> [] \<and> \<not> isspace (hd target_text) \<longrightarrow>
      extract_sentence_containing_text text target_text \<noteq> []) \<and>
   ((\<forall>c \<in> set text. isspace c) \<longrightarrow> extract_sentence_containing_text text target_text = [])"
proof (intro conjI impI)
  assume n: "str_find text target_text = None"
  then show e: "extract_sentence_containing_text text target_text = str_strip text"
    by (simp add: extract_sentence_containing_text_def)
  show "extract_sentence_containing_text text target_text \<noteq> [] \<longleftrightarrow>
      (\<exists>c \<in> set text. \<not> isspace c)"
    unfolding e by (rule strip_nonempty_iff)
next
  assume a: "str_find text target_text \<noteq> None \<and> target_text \<noteq> [] \<and>
      \<not> isspace (hd target_text)"
  then obtain pos where f: "str_find text target_text = Some pos"
    by auto
  define w where "w = str_strip (slice text (pos - 150) (min (length text) (pos + 200)))"
  from window_nonempty[OF f] a have w: "w \<noteq> []"
    by (simp add: w_def)
  have "\<exists>s. extract_sentence_containing_text text target_text =
      (if length s < 20 \<or> \<not> str_contains s target_text then w else s)"
    unfolding extract_sentence_containing_text_def f w_def
    by (simp add: Let_def) blast
  then obtain s where r: "extract_sentence_containing_text text target_text =
      (if length s < 20 \<or> \<not> str_contains s target_text then w else s)"
    by blast
  show "extract_sentence_containing_text text target_text \<noteq> []"
  proof (cases "length s < 20 \<or> \<not> str_contains s target_text")
    case True
    with r w show ?thesis by simp
  next
    case False
    then have "s \<noteq> []" by auto
    with r False show ?thesis by simp
  qed
next
  assume b: "\<forall>c \<in> set text. isspace c"
  show "extract_sentence_containing_text text target_text = []"
  proof (cases "str_find text target_text")
    case None
    with b show ?thesis
      by (simp add: extract_sentence_containing_text_def strip_blank)
  next
    case (Some pos)
    show ?thesis
      unfolding extract_sentence_containing_text_def Some option.case Let_def
      by (simp add: strip_slice_blank[OF b])
  qed
qed

theorem extraction_nonempty_witness:
  "extract_sentence_containing_text ''no token here '' ''(VAE)'' = ''no token here'' \<and>
   extract_sentence_containing_text
     ''Dr. Smith uses e.g. models. The VAE (VAE) is good.'' ''(VAE)'' \<noteq> [] \<and>
   extract_sentence_containing_text [CHR 0x85, CHR 0xA0, CHR '' ''] ''(VAE)'' = []"
proof -
  have n: "str_find ''no token here '' ''(VAE)'' = None"
    by code_simp
  have f: "str_find ''Dr. Smith uses e.g. models. The VAE (VAE) is good.'' ''(VAE)'' \<noteq> None"
    by code_simp
  have s: "str_strip ''no token here '' = ''no token here''"
    by code_simp
  have h: "''(VAE)'' \<noteq> [] \<and> \<not> isspace (hd ''(VAE)'')"
    by code_simp
  have b: "\<forall>c \<in> set [CHR 0x85, CHR 0xA0, CHR '' '']. isspace c"
    by code_simp
  from extraction_nonempty[of "''no token here ''" "''(VAE)''"] n s
  have "extract_sentence_containing_text ''no token here '' ''(VAE)'' = ''no token here''"
    by simp
  moreover
  from extraction_nonempty[of "''Dr. Smith uses e.g. models. The VAE (VAE) is good.''"
      "''(VAE)''"] f h
  have "extract_sentence_containing_text
     ''Dr. Smith uses e.g. models. The VAE (VAE) is good.'' ''(VAE)'' \<noteq> []"
    by blast
  moreover
  from extraction_nonempty[of "[CHR 0x85, CHR 0xA0, CHR '' '']" "''(VAE)''"] b
  have "extract_sentence_containing_text [CHR 0x85, CHR 0xA0, CHR '' ''] ''(VAE)'' = []"
    by blast
  ultimately show ?thesis by blast
qed

end
